theory Spec2Isabelle
  imports Main "HOL-Library.Word"
begin

unbundle bit_operations_syntax

section \<open>Data model of IRReceiver\<close>

text \<open>
  The receiver is a C++ class whose methods mutate its members. Each method is a function
  from the receiver (a record of the members) to the updated receiver, paired with the
  return value where the method has one. What a method reads from the hardware
  (\<open>millis()\<close>, \<open>micros()\<close>, \<open>digitalRead\<close>, whether the pin can carry an interrupt) is an
  argument of its model.

  A C array that the class keeps together with an element count (\<open>m_rawTransitions\<close> with
  \<open>m_rawTransitionIndex\<close>, \<open>m_pulseSpacePairs\<close> with \<open>m_pulseSpacePairCount\<close>,
  \<open>m_decodedSegments\<close> with \<open>m_decodedSegmentCount\<close>) is the list of its live entries; the
  count is the length of the list, and setting the count to zero is the empty list.
  \<open>int\<close> is the 32-bit \<open>int\<close> of the ESP32 and STM32 targets: every duration is below
  \<open>2 ^ 31\<close> and no arithmetic on it leaves that range, so HOL's \<open>int\<close> computes the
  same values. \<open>uint32_t\<close> and \<open>unsigned long\<close> are \<open>32 word\<close>.
\<close>

named_theorems ir_consts \<open>the compiled-in constants of the receiver\<close>

definition IR_LIB_MAX_TRANSITIONS :: nat where [ir_consts]: "IR_LIB_MAX_TRANSITIONS = 300"
definition IR_LIB_IDLE_TIMEOUT_MS :: int where [ir_consts]: "IR_LIB_IDLE_TIMEOUT_MS = 100"
definition IR_LIB_MAX_DECODED_SEGMENTS :: nat where [ir_consts]: "IR_LIB_MAX_DECODED_SEGMENTS = 10"

record PulseSpacePair =
  pulse :: int
  space :: int

datatype RemoteBrand = UNKNOWN | JVC | SONY | NEC

record DecodedIR =
  brand :: RemoteBrand
  command :: int
  address :: int

text \<open>The default-constructed \<open>DecodedIR()\<close>.\<close>

definition DecodedIR_default :: DecodedIR where
  "DecodedIR_default = \<lparr>brand = UNKNOWN, command = -1, address = -1\<rparr>"

record DecodedNECInternal =
  base :: DecodedIR
  checksumValid :: bool

datatype PinLevel = LOW | HIGH

record IRReceiver =
  m_irPin :: int
  m_rawTransitions :: "32 word list"
  m_lastTransitionMillis :: "32 word"
  m_lastPinState :: PinLevel
  m_rawBurstCopied :: bool
  m_pulseSpacePairs :: "PulseSpacePair list"
  m_brandScores :: "RemoteBrand \<Rightarrow> int"
  m_decodedSegments :: "DecodedIR list"
  m_finalResultCode :: DecodedIR
  m_codeResultIsReady :: bool
  m_isInterruptAttached :: bool

subsection \<open>Protocol constants\<close>

definition JVC_PREAMBLE_PULSE :: int where [ir_consts]: "JVC_PREAMBLE_PULSE = 8400"
definition JVC_PREAMBLE_SPACE :: int where [ir_consts]: "JVC_PREAMBLE_SPACE = 4200"
definition JVC_BIT_PULSE :: int where [ir_consts]: "JVC_BIT_PULSE = 526"
definition JVC_ZERO_SPACE :: int where [ir_consts]: "JVC_ZERO_SPACE = 526"
definition JVC_ONE_SPACE :: int where [ir_consts]: "JVC_ONE_SPACE = 1574"
definition JVC_REPEAT_DELAY :: int where [ir_consts]: "JVC_REPEAT_DELAY = 22000"
definition JVC_REPEAT_PREAMBLE_PULSE :: int where [ir_consts]: "JVC_REPEAT_PREAMBLE_PULSE = 0"
definition JVC_REPEAT_PREAMBLE_SPACE :: int where [ir_consts]: "JVC_REPEAT_PREAMBLE_SPACE = 0"
definition JVC_INITIAL_BITS :: int where [ir_consts]: "JVC_INITIAL_BITS = 17"
definition JVC_REPEAT_BITS :: int where [ir_consts]: "JVC_REPEAT_BITS = 16"

definition SONY_PREAMBLE_PULSE :: int where [ir_consts]: "SONY_PREAMBLE_PULSE = 2400"
definition SONY_PREAMBLE_SPACE :: int where [ir_consts]: "SONY_PREAMBLE_SPACE = 600"
definition SONY_ZERO_PULSE :: int where [ir_consts]: "SONY_ZERO_PULSE = 600"
definition SONY_ONE_PULSE :: int where [ir_consts]: "SONY_ONE_PULSE = 1200"
definition SONY_BIT_SPACE :: int where [ir_consts]: "SONY_BIT_SPACE = 600"
definition SONY_REPEAT_DELAY :: int where [ir_consts]: "SONY_REPEAT_DELAY = 25000"
definition SONY_REPEAT_PREAMBLE_PULSE :: int where [ir_consts]: "SONY_REPEAT_PREAMBLE_PULSE = 2400"
definition SONY_REPEAT_PREAMBLE_SPACE :: int where [ir_consts]: "SONY_REPEAT_PREAMBLE_SPACE = 600"
definition SONY_INITIAL_BITS :: int where [ir_consts]: "SONY_INITIAL_BITS = 13"
definition SONY_REPEAT_BITS :: int where [ir_consts]: "SONY_REPEAT_BITS = 13"

definition NEC_PREAMBLE_PULSE :: int where [ir_consts]: "NEC_PREAMBLE_PULSE = 9000"
definition NEC_PREAMBLE_SPACE :: int where [ir_consts]: "NEC_PREAMBLE_SPACE = 4500"
definition NEC_BIT_PULSE :: int where [ir_consts]: "NEC_BIT_PULSE = 563"
definition NEC_ZERO_SPACE :: int where [ir_consts]: "NEC_ZERO_SPACE = 563"
definition NEC_ONE_SPACE :: int where [ir_consts]: "NEC_ONE_SPACE = 563 * 3"
definition NEC_REPEAT_DELAY :: int where [ir_consts]: "NEC_REPEAT_DELAY = 42000"
definition NEC_REPEAT_PREAMBLE_PULSE :: int where [ir_consts]: "NEC_REPEAT_PREAMBLE_PULSE = 8900"
definition NEC_REPEAT_PREAMBLE_SPACE :: int where [ir_consts]: "NEC_REPEAT_PREAMBLE_SPACE = 2200"
definition NEC_INITIAL_BITS :: int where [ir_consts]: "NEC_INITIAL_BITS = 33"
definition NEC_REPEAT_BITS :: int where [ir_consts]: "NEC_REPEAT_BITS = 1"

definition TIMING_TOLERANCE :: int where [ir_consts]: "TIMING_TOLERANCE = 200"

definition TIME_VALUE_MASK :: "32 word" where [ir_consts]: "TIME_VALUE_MASK = 0x7FFFFFFF"
definition DIRECTION_FLAG_H_TO_L :: "32 word" where [ir_consts]: "DIRECTION_FLAG_H_TO_L = 0x80000000"

section \<open>Construction, interrupt handler and control surface\<close>

text \<open>The constructor's member initialisers.\<close>

definition IRReceiver_new :: IRReceiver where
  "IRReceiver_new =
     \<lparr>m_irPin = -1, m_rawTransitions = [], m_lastTransitionMillis = 0,
      m_lastPinState = HIGH, m_rawBurstCopied = False, m_pulseSpacePairs = [],
      m_brandScores = (\<lambda>_. 0), m_decodedSegments = [],
      m_finalResultCode = DecodedIR_default, m_codeResultIsReady = False,
      m_isInterruptAttached = False\<rparr>"

text \<open>
  \<open>handleIrInterrupt_priv\<close>: \<open>currentTimeMicros\<close> is \<open>micros()\<close>, \<open>currentState\<close> is
  \<open>digitalRead(m_irPin)\<close> and \<open>nowMillis\<close> is \<open>millis()\<close>.
\<close>

definition handleIrInterrupt_priv :: "32 word \<Rightarrow> PinLevel \<Rightarrow> 32 word \<Rightarrow> IRReceiver \<Rightarrow> IRReceiver" where
  "handleIrInterrupt_priv currentTimeMicros currentState nowMillis s =
     (if currentState \<noteq> m_lastPinState s \<and> length (m_rawTransitions s) < IR_LIB_MAX_TRANSITIONS
      then
        let timeValue = currentTimeMicros AND TIME_VALUE_MASK;
            timeValue = (if currentState = LOW \<and> m_lastPinState s = HIGH
                         then timeValue OR DIRECTION_FLAG_H_TO_L else timeValue)
        in s\<lparr>m_rawTransitions := m_rawTransitions s @ [timeValue],
              m_lastPinState := currentState,
              m_lastTransitionMillis := nowMillis\<rparr>
      else s)"

text \<open>
  \<open>enable\<close>: \<open>pinLevel\<close> is \<open>digitalRead(m_irPin)\<close>, \<open>nowMillis\<close> is \<open>millis()\<close> and
  \<open>canInterrupt\<close> says whether \<open>digitalPinToInterrupt(m_irPin) != NOT_AN_INTERRUPT\<close>.
\<close>

definition enable :: "PinLevel \<Rightarrow> 32 word \<Rightarrow> bool \<Rightarrow> IRReceiver \<Rightarrow> IRReceiver" where
  "enable pinLevel nowMillis canInterrupt s =
     (if m_irPin s = -1 then s
      else s\<lparr>m_lastPinState := pinLevel,
             m_lastTransitionMillis := nowMillis,
             m_codeResultIsReady := False,
             m_rawBurstCopied := False,
             m_rawTransitions := [],
             m_isInterruptAttached := canInterrupt\<rparr>)"

text \<open>
  \<open>disable\<close>: both branches on \<open>digitalPinToInterrupt\<close> clear \<open>m_isInterruptAttached\<close>, so
  the model needs no argument for it.
\<close>

definition disable :: "IRReceiver \<Rightarrow> IRReceiver" where
  "disable s =
     (if m_irPin s = -1 \<or> \<not> m_isInterruptAttached s then s
      else s\<lparr>m_isInterruptAttached := False,
             m_rawTransitions := [],
             m_rawBurstCopied := False,
             m_codeResultIsReady := False\<rparr>)"

definition begin_pin :: "int \<Rightarrow> PinLevel \<Rightarrow> 32 word \<Rightarrow> bool \<Rightarrow> IRReceiver \<Rightarrow> bool \<times> IRReceiver" where
  "begin_pin pin pinLevel nowMillis canInterrupt s =
     (let s1 = (if m_isInterruptAttached s \<and> m_irPin s \<noteq> -1 then disable s else s);
          s2 = s1\<lparr>m_irPin := pin\<rparr>;
          s3 = enable pinLevel nowMillis canInterrupt s2
      in if \<not> m_isInterruptAttached s3 \<and> m_irPin s3 \<noteq> -1 then (False, s3) else (True, s3))"

definition getCode :: "IRReceiver \<Rightarrow> DecodedIR \<times> IRReceiver" where
  "getCode s =
     (if m_codeResultIsReady s
      then (m_finalResultCode s, s\<lparr>m_codeResultIsReady := False\<rparr>)
      else (DecodedIR_default, s))"

section \<open>Pair extractor\<close>

text \<open>The wraparound-safe difference of two masked timestamps, lines 212 to 217.\<close>

definition deltaTime :: "32 word \<Rightarrow> 32 word \<Rightarrow> 32 word" where
  "deltaTime previousTimeVal currentTimeVal =
     (if currentTimeVal \<ge> previousTimeVal then currentTimeVal - previousTimeVal
      else (TIME_VALUE_MASK - previousTimeVal) + currentTimeVal + 1)"

text \<open>
  The loop of \<open>_processRawTransitionsToPairs\<close> over the transitions after the first:
  the arguments are the transitions still to read, \<open>previousTimeVal\<close>, \<open>currentPulse\<close>
  and the pairs written so far. It returns \<open>currentPulse\<close> and the pairs.
\<close>

fun pairLoop :: "32 word list \<Rightarrow> 32 word \<Rightarrow> int \<Rightarrow> PulseSpacePair list \<Rightarrow> int \<times> PulseSpacePair list" where
  "pairLoop [] previousTimeVal currentPulse pairs = (currentPulse, pairs)"
| "pairLoop (v # rest) previousTimeVal currentPulse pairs =
     (if length pairs \<ge> IR_LIB_MAX_TRANSITIONS div 2 then (currentPulse, pairs)
      else
        let currentTimeVal = v AND TIME_VALUE_MASK;
            d = sint (deltaTime previousTimeVal currentTimeVal)
        in if currentPulse = -1 then pairLoop rest currentTimeVal d pairs
           else if d > IR_LIB_IDLE_TIMEOUT_MS * 1000
           then pairLoop rest currentTimeVal (-1) (pairs @ [\<lparr>pulse = currentPulse, space = -1\<rparr>])
           else pairLoop rest currentTimeVal (-1) (pairs @ [\<lparr>pulse = currentPulse, space = d\<rparr>]))"

text \<open>\<open>_processRawTransitionsToPairs\<close> returns the new contents of \<open>m_pulseSpacePairs\<close>.\<close>

definition processRawTransitionsToPairs :: "32 word list \<Rightarrow> PulseSpacePair list" where
  "processRawTransitionsToPairs localTransitions =
     (if length localTransitions < 2 then []
      else
        let (currentPulse, pairs) =
              pairLoop (tl localTransitions) (hd localTransitions AND TIME_VALUE_MASK) (-1) []
        in if currentPulse \<noteq> -1 \<and> length pairs < IR_LIB_MAX_TRANSITIONS div 2
           then pairs @ [\<lparr>pulse = currentPulse, space = -1\<rparr>]
           else pairs)"

section \<open>Tolerance checks and preamble matching\<close>

definition isWithinTolerance :: "int \<Rightarrow> int \<Rightarrow> int \<Rightarrow> bool" where
  "isWithinTolerance captured expected tolerance \<longleftrightarrow> \<bar>captured - expected\<bar> \<le> tolerance"

definition matchPreamble :: "int \<Rightarrow> int \<Rightarrow> bool \<Rightarrow> RemoteBrand" where
  "matchPreamble p sp isRepeatPreamble =
     (if isRepeatPreamble then
        (if isWithinTolerance p JVC_REPEAT_PREAMBLE_PULSE TIMING_TOLERANCE \<and>
            isWithinTolerance sp JVC_REPEAT_PREAMBLE_SPACE TIMING_TOLERANCE then JVC
         else if isWithinTolerance p SONY_REPEAT_PREAMBLE_PULSE TIMING_TOLERANCE \<and>
            isWithinTolerance sp SONY_REPEAT_PREAMBLE_SPACE TIMING_TOLERANCE then SONY
         else if isWithinTolerance p NEC_REPEAT_PREAMBLE_PULSE TIMING_TOLERANCE \<and>
            isWithinTolerance sp NEC_REPEAT_PREAMBLE_SPACE TIMING_TOLERANCE then NEC
         else UNKNOWN)
      else
        (if isWithinTolerance p JVC_PREAMBLE_PULSE TIMING_TOLERANCE \<and>
            isWithinTolerance sp JVC_PREAMBLE_SPACE TIMING_TOLERANCE then JVC
         else if isWithinTolerance p SONY_PREAMBLE_PULSE TIMING_TOLERANCE \<and>
            isWithinTolerance sp SONY_PREAMBLE_SPACE TIMING_TOLERANCE then SONY
         else if isWithinTolerance p NEC_PREAMBLE_PULSE TIMING_TOLERANCE \<and>
            isWithinTolerance sp NEC_PREAMBLE_SPACE TIMING_TOLERANCE then NEC
         else UNKNOWN))"

section \<open>Scorer\<close>

text \<open>
  Each scoring function walks the pairs with an index \<open>i\<close> and carries \<open>score\<close>,
  \<open>currentSegmentStartPairIndex\<close> and \<open>segmentCount\<close>. The inner loops of the structure
  checks only compute a flag and leave at the first failure, so each is a \<open>list_all\<close> or
  a \<open>find\<close> over the index range \<open>[a..<Suc e]\<close>, which is the source's \<open>a \<le> j \<le> e\<close>.
\<close>

definition firstValidDataSpace :: "PulseSpacePair list \<Rightarrow> int \<Rightarrow> nat \<Rightarrow> nat \<Rightarrow> int" where
  "firstValidDataSpace pairs repeatDelay a e =
     (case find (\<lambda>j. space (pairs ! j) \<noteq> -1 \<and> \<not> isWithinTolerance (space (pairs ! j)) repeatDelay 5000)
             [a..<Suc e] of
        None \<Rightarrow> -1
      | Some j \<Rightarrow> space (pairs ! j))"

definition sonyStructure :: "PulseSpacePair list \<Rightarrow> nat \<Rightarrow> nat \<Rightarrow> bool" where
  "sonyStructure pairs segmentDataPairsStartIndex segmentEndPairIndex =
     (let firstDataMark = pulse (pairs ! segmentDataPairsStartIndex);
          allMarksFixed =
            list_all (\<lambda>j. isWithinTolerance (pulse (pairs ! j)) firstDataMark TIMING_TOLERANCE)
              [segmentDataPairsStartIndex + 1..<Suc segmentEndPairIndex];
          marksAreVariable = \<not> allMarksFixed;
          fv = firstValidDataSpace pairs SONY_REPEAT_DELAY segmentDataPairsStartIndex segmentEndPairIndex;
          spacesAreFixed =
            (if fv \<noteq> -1 then
               list_all (\<lambda>j.
                  if space (pairs ! j) \<noteq> -1 \<and> \<not> isWithinTolerance (space (pairs ! j)) SONY_REPEAT_DELAY 5000
                  then isWithinTolerance (space (pairs ! j)) fv TIMING_TOLERANCE
                  else \<not> (space (pairs ! j) \<noteq> -1 \<and> isWithinTolerance (space (pairs ! j)) SONY_REPEAT_DELAY 5000
                          \<and> j \<noteq> segmentEndPairIndex))
                 [segmentDataPairsStartIndex..<Suc segmentEndPairIndex]
             else False)
      in marksAreVariable \<and> spacesAreFixed)"

definition scoreSonyStep :: "PulseSpacePair list \<Rightarrow> nat \<Rightarrow> int \<times> nat \<times> int \<Rightarrow> int \<times> nat \<times> int" where
  "scoreSonyStep pairs i st =
     (case st of (score, currentSegmentStartPairIndex, segmentCount) \<Rightarrow>
      if (space (pairs ! i) \<noteq> -1 \<and> isWithinTolerance (space (pairs ! i)) SONY_REPEAT_DELAY 5000)
         \<or> Suc i = length pairs
      then
        if int i - int currentSegmentStartPairIndex + 1 > 0 then
          let segmentCount = segmentCount + 1;
              isInitialFrame = (segmentCount = 1);
              preamble =
                (space (pairs ! currentSegmentStartPairIndex) \<noteq> -1 \<and>
                 matchPreamble (pulse (pairs ! currentSegmentStartPairIndex))
                   (space (pairs ! currentSegmentStartPairIndex)) (\<not> isInitialFrame) = SONY);
              score = (if preamble then score + 1 else score);
              segmentDataPairsStartIndex =
                (if preamble then currentSegmentStartPairIndex + 1 else currentSegmentStartPairIndex);
              dataPairCountInSegment = int i - int segmentDataPairsStartIndex + 1;
              score =
                (if dataPairCountInSegment > 0 then
                   let score =
                         (if isInitialFrame
                          then (if isWithinTolerance dataPairCountInSegment (SONY_INITIAL_BITS - 1) 2
                                then score + 1 else score)
                          else (if isWithinTolerance dataPairCountInSegment (SONY_REPEAT_BITS - 1) 2
                                then score + 1 else score))
                   in if dataPairCountInSegment > 1 \<and> sonyStructure pairs segmentDataPairsStartIndex i
                      then score + 1 else score
                 else score)
          in (score, i + 1, segmentCount)
        else st
      else st)"

definition scoreSonySIRC12 :: "PulseSpacePair list \<Rightarrow> int" where
  "scoreSonySIRC12 pairs =
     (if length pairs = 0 then 0
      else fst (fold (scoreSonyStep pairs) [0..<length pairs] (0, 0, 0)))"

definition jvcStructure :: "PulseSpacePair list \<Rightarrow> nat \<Rightarrow> nat \<Rightarrow> bool" where
  "jvcStructure pairs bitStructureCheckStartIndex segmentEndPairIndex =
     (let firstDataMark = pulse (pairs ! bitStructureCheckStartIndex);
          marksAreFixed =
            list_all (\<lambda>j. pulse (pairs ! j) = -1 \<or>
                           isWithinTolerance (pulse (pairs ! j)) firstDataMark TIMING_TOLERANCE)
              [bitStructureCheckStartIndex..<Suc segmentEndPairIndex];
          fv = firstValidDataSpace pairs JVC_REPEAT_DELAY bitStructureCheckStartIndex segmentEndPairIndex;
          allSpacesFixed =
            (if fv \<noteq> -1 then
               list_all (\<lambda>j.
                  if space (pairs ! j) \<noteq> -1 \<and> \<not> isWithinTolerance (space (pairs ! j)) JVC_REPEAT_DELAY 5000
                  then isWithinTolerance (space (pairs ! j)) fv TIMING_TOLERANCE
                  else True)
                 [bitStructureCheckStartIndex..<Suc segmentEndPairIndex]
             else False);
          spacesAreVariable = \<not> allSpacesFixed
      in marksAreFixed \<and> spacesAreVariable)"

definition scoreJVCStep :: "PulseSpacePair list \<Rightarrow> nat \<Rightarrow> int \<times> nat \<times> int \<Rightarrow> int \<times> nat \<times> int" where
  "scoreJVCStep pairs i st =
     (case st of (score, currentSegmentStartPairIndex, segmentCount) \<Rightarrow>
      if (space (pairs ! i) \<noteq> -1 \<and> isWithinTolerance (space (pairs ! i)) JVC_REPEAT_DELAY 5000)
         \<or> Suc i = length pairs
      then
        let segmentPairCount = int i - int currentSegmentStartPairIndex + 1 in
        if segmentPairCount > 0 then
          let segmentCount = segmentCount + 1;
              isInitialFrame = (segmentCount = 1);
              preambleChecked =
                (isInitialFrame \<and> pulse (pairs ! currentSegmentStartPairIndex) \<noteq> -1 \<and>
                 space (pairs ! currentSegmentStartPairIndex) \<noteq> -1);
              preamble =
                (preambleChecked \<and>
                 matchPreamble (pulse (pairs ! currentSegmentStartPairIndex))
                   (space (pairs ! currentSegmentStartPairIndex)) False = JVC);
              score =
                (if preambleChecked then (if preamble then score + 1 else score)
                 else if \<not> isInitialFrame then
                   (if isWithinTolerance segmentPairCount JVC_INITIAL_BITS 2 then score + 1 else score)
                 else score);
              segmentDataPairsStartIndex =
                (if preamble then currentSegmentStartPairIndex + 1 else currentSegmentStartPairIndex);
              score =
                (if isInitialFrame \<and>
                    isWithinTolerance (int i - int segmentDataPairsStartIndex + 1) (JVC_INITIAL_BITS - 1) 2
                 then score + 1 else score);
              score =
                (if segmentPairCount > 1 \<and>
                    jvcStructure pairs
                      (if isInitialFrame then segmentDataPairsStartIndex else currentSegmentStartPairIndex) i
                 then score + 1 else score)
          in (score, i + 1, segmentCount)
        else st
      else st)"

definition scoreJVC :: "PulseSpacePair list \<Rightarrow> int" where
  "scoreJVC pairs =
     (if length pairs = 0 then 0
      else fst (fold (scoreJVCStep pairs) [0..<length pairs] (0, 0, 0)))"

definition necStructure :: "PulseSpacePair list \<Rightarrow> nat \<Rightarrow> nat \<Rightarrow> bool" where
  "necStructure pairs segmentDataPairsStartIndex segmentEndPairIndex =
     (let firstDataMark = pulse (pairs ! segmentDataPairsStartIndex);
          marksAreFixed =
            list_all (\<lambda>j. pulse (pairs ! j) = -1 \<or>
                           isWithinTolerance (pulse (pairs ! j)) firstDataMark TIMING_TOLERANCE)
              [segmentDataPairsStartIndex..<Suc segmentEndPairIndex];
          spacesAreVariable = marksAreFixed;
          fv = firstValidDataSpace pairs NEC_REPEAT_DELAY segmentDataPairsStartIndex segmentEndPairIndex;
          allSpacesFixed =
            (if fv \<noteq> -1 then
               list_all (\<lambda>j.
                  if space (pairs ! j) \<noteq> -1 \<and> \<not> isWithinTolerance (space (pairs ! j)) NEC_REPEAT_DELAY 5000
                  then isWithinTolerance (space (pairs ! j)) fv TIMING_TOLERANCE
                  else \<not> (space (pairs ! j) \<noteq> -1 \<and> isWithinTolerance (space (pairs ! j)) NEC_REPEAT_DELAY 5000
                          \<and> j \<noteq> segmentEndPairIndex))
                 [segmentDataPairsStartIndex..<Suc segmentEndPairIndex]
             else False);
          spacesAreVariable = (if \<not> allSpacesFixed then True else spacesAreVariable)
      in marksAreFixed \<and> spacesAreVariable)"

definition scoreNECStep :: "PulseSpacePair list \<Rightarrow> nat \<Rightarrow> int \<times> nat \<times> int \<Rightarrow> int \<times> nat \<times> int" where
  "scoreNECStep pairs i st =
     (case st of (score, currentSegmentStartPairIndex, segmentCount) \<Rightarrow>
      if (space (pairs ! i) \<noteq> -1 \<and> isWithinTolerance (space (pairs ! i)) NEC_REPEAT_DELAY 5000)
         \<or> Suc i = length pairs
      then
        if int i - int currentSegmentStartPairIndex + 1 > 0 then
          let segmentCount = segmentCount + 1;
              isInitialFrame = (segmentCount = 1);
              preamble =
                (pulse (pairs ! currentSegmentStartPairIndex) \<noteq> -1 \<and>
                 space (pairs ! currentSegmentStartPairIndex) \<noteq> -1 \<and>
                 matchPreamble (pulse (pairs ! currentSegmentStartPairIndex))
                   (space (pairs ! currentSegmentStartPairIndex)) (\<not> isInitialFrame) = NEC);
              score = (if preamble then score + 1 else score);
              segmentDataPairsStartIndex =
                (if preamble then currentSegmentStartPairIndex + 1 else currentSegmentStartPairIndex);
              dataPairCountInSegment = int i - int segmentDataPairsStartIndex + 1;
              score =
                (if dataPairCountInSegment > 0 \<or>
                    (\<not> isInitialFrame \<and> dataPairCountInSegment = NEC_REPEAT_BITS) then
                   let score =
                         (if isInitialFrame
                          then (if isWithinTolerance dataPairCountInSegment (NEC_INITIAL_BITS - 1) 2
                                then score + 1 else score)
                          else (if isWithinTolerance dataPairCountInSegment NEC_REPEAT_BITS 1
                                then score + 1 else score))
                   in if dataPairCountInSegment > 1 \<and> isInitialFrame \<and>
                         necStructure pairs segmentDataPairsStartIndex i
                      then score + 1 else score
                 else score)
          in (score, i + 1, segmentCount)
        else st
      else st)"

definition scoreNEC :: "PulseSpacePair list \<Rightarrow> int" where
  "scoreNEC pairs =
     (if length pairs = 0 then 0
      else fst (fold (scoreNECStep pairs) [0..<length pairs] (0, 0, 0)))"

section \<open>Segment decoder\<close>

text \<open>
  The bit loops read the data pairs of one segment in order and stop at the first pair
  that does not decode. Their arguments are the pairs still to read, \<open>rawBits\<close> and
  \<open>bitCount\<close>; the source's test \<open>i == dataPairCount - 1\<close> is that no pair is left
  after the current one. They return \<open>rawBits\<close> and \<open>bitCount\<close>.
\<close>

fun sonyBitLoop :: "PulseSpacePair list \<Rightarrow> 32 word \<Rightarrow> nat \<Rightarrow> 32 word \<times> nat" where
  "sonyBitLoop [] rawBits bitCount = (rawBits, bitCount)"
| "sonyBitLoop (p # rest) rawBits bitCount =
     (if bitCount < nat (SONY_INITIAL_BITS - 1) then
        if pulse p \<noteq> -1 \<and>
           (isWithinTolerance (pulse p) SONY_ZERO_PULSE TIMING_TOLERANCE \<or>
            isWithinTolerance (pulse p) SONY_ONE_PULSE TIMING_TOLERANCE)
        then
          let rawBits = (if isWithinTolerance (pulse p) SONY_ZERO_PULSE TIMING_TOLERANCE
                         then rawBits else rawBits OR push_bit bitCount 1);
              bitCount = bitCount + 1
          in if bitCount = nat (SONY_INITIAL_BITS - 1) \<and> space p \<noteq> -1 \<and>
                isWithinTolerance (space p) SONY_REPEAT_DELAY 5000 then (rawBits, bitCount)
             else if bitCount = nat (SONY_INITIAL_BITS - 1) \<and> space p \<noteq> -1 \<and>
                isWithinTolerance (space p) SONY_BIT_SPACE TIMING_TOLERANCE then (rawBits, bitCount)
             else sonyBitLoop rest rawBits bitCount
        else (rawBits, bitCount)
      else (rawBits, bitCount))"

text \<open>
  The space-coded loop of JVC and NEC, which differ in their constants only:
  \<open>expectedPulse\<close>, \<open>zeroSpace\<close>, \<open>oneSpace\<close> and \<open>maxBitsToDecode\<close>.
\<close>

fun spaceBitLoop :: "int \<Rightarrow> int \<Rightarrow> int \<Rightarrow> nat \<Rightarrow> PulseSpacePair list \<Rightarrow> 32 word \<Rightarrow> nat \<Rightarrow> 32 word \<times> nat" where
  "spaceBitLoop expectedPulse zeroSpace oneSpace maxBitsToDecode [] rawBits bitCount = (rawBits, bitCount)"
| "spaceBitLoop expectedPulse zeroSpace oneSpace maxBitsToDecode (p # rest) rawBits bitCount =
     (if bitCount < maxBitsToDecode then
        let sp = (if rest = [] \<and> space p = -1 then zeroSpace else space p)
        in if isWithinTolerance (pulse p) expectedPulse TIMING_TOLERANCE then
             if sp \<noteq> -1 then
               if isWithinTolerance sp zeroSpace TIMING_TOLERANCE
               then spaceBitLoop expectedPulse zeroSpace oneSpace maxBitsToDecode rest rawBits (bitCount + 1)
               else if isWithinTolerance sp oneSpace TIMING_TOLERANCE
               then spaceBitLoop expectedPulse zeroSpace oneSpace maxBitsToDecode rest
                      (rawBits OR push_bit bitCount 1) (bitCount + 1)
               else (rawBits, bitCount)
             else (rawBits, bitCount)
           else (rawBits, bitCount)
      else (rawBits, bitCount))"

definition decodeWinningSegment :: "RemoteBrand \<Rightarrow> PulseSpacePair list \<Rightarrow> DecodedIR" where
  "decodeWinningSegment b dataPairs =
     (if b = UNKNOWN \<or> length dataPairs = 0 then DecodedIR_default
      else if b = SONY then
        (case sonyBitLoop dataPairs 0 0 of (rawBits, bitCount) \<Rightarrow>
           \<lparr>brand = b,
            command = (if bitCount \<ge> 7 then uint (drop_bit 0 rawBits AND 0x7F) else -1),
            address = (if bitCount \<ge> 12 then uint (drop_bit 7 rawBits AND 0x1F) else -1)\<rparr>)
      else if b = JVC then
        (case spaceBitLoop JVC_BIT_PULSE JVC_ZERO_SPACE JVC_ONE_SPACE 16 dataPairs 0 0 of
           (rawBits, bitCount) \<Rightarrow>
           \<lparr>brand = b,
            command = (if bitCount \<ge> 16 then uint (drop_bit 8 rawBits AND 0xFF) else -1),
            address = (if bitCount \<ge> 8 then uint (drop_bit 0 rawBits AND 0xFF) else -1)\<rparr>)
      else \<lparr>brand = b, command = -1, address = -1\<rparr>)"

text \<open>
  The field extraction of \<open>decodeNECData\<close>, lines 745 to 780, from \<open>rawBits\<close> and
  \<open>bitCount\<close>. The bytes are between 0 and 255 or \<open>-1\<close>, so the cast \<open>(uint8_t)(a + b)\<close>
  is \<open>(a + b) mod 256\<close>.
\<close>

definition necFields :: "32 word \<Rightarrow> nat \<Rightarrow> DecodedNECInternal" where
  "necFields rawBits bitCount =
     (let addressByte1 = (if bitCount \<ge> 8 then uint (drop_bit 0 rawBits AND 0xFF) else -1);
          addressByte2 = (if bitCount \<ge> 16 then uint (drop_bit 8 rawBits AND 0xFF) else -1);
          commandByte1 = (if bitCount \<ge> 24 then uint (drop_bit 16 rawBits AND 0xFF) else -1);
          commandByte2 = (if bitCount \<ge> 32 then uint (drop_bit 24 rawBits AND 0xFF) else -1);
          addr =
            (if addressByte1 \<noteq> -1 \<and> addressByte2 \<noteq> -1 \<and> (addressByte1 + addressByte2) mod 256 = 0xFF
             then addressByte1
             else if addressByte1 \<noteq> -1 \<and> addressByte2 \<noteq> -1
             then push_bit 8 addressByte2 OR addressByte1
             else if addressByte1 \<noteq> -1 then addressByte1
             else -1)
      in if commandByte1 \<noteq> -1 then
           \<lparr>base = \<lparr>brand = NEC, command = commandByte1, address = addr\<rparr>,
            checksumValid = (commandByte2 \<noteq> -1 \<and> (commandByte1 + commandByte2) mod 256 = 0xFF)\<rparr>
         else
           \<lparr>base = \<lparr>brand = NEC, command = -1, address = addr\<rparr>, checksumValid = False\<rparr>)"

definition necBits :: "PulseSpacePair list \<Rightarrow> 32 word \<times> nat" where
  "necBits dataPairs =
     spaceBitLoop NEC_BIT_PULSE NEC_ZERO_SPACE NEC_ONE_SPACE (nat (NEC_INITIAL_BITS - 1)) dataPairs 0 0"

definition decodeNECData :: "PulseSpacePair list \<Rightarrow> DecodedNECInternal" where
  "decodeNECData dataPairs = (case necBits dataPairs of (rawBits, bitCount) \<Rightarrow> necFields rawBits bitCount)"

section \<open>Result resolver\<close>

record DecodedCount =
  data :: DecodedIR
  count :: int
  checksumValidForNEC :: bool

text \<open>The comparison of segment \<open>i\<close> with group \<open>j\<close>, lines 806 to 811.\<close>

definition segmentMatches :: "DecodedIR \<Rightarrow> bool \<Rightarrow> DecodedCount \<Rightarrow> bool" where
  "segmentMatches seg segChecksum c =
     (let match = (brand seg = brand (data c) \<and> command seg = command (data c) \<and>
                   address seg = address (data c))
      in if brand seg = NEC then match \<and> (segChecksum = checksumValidForNEC c) else match)"

text \<open>
  The inner loop over the groups: the first matching group is incremented. It returns
  the groups and \<open>found\<close>.
\<close>

fun countMatch :: "DecodedIR \<Rightarrow> bool \<Rightarrow> DecodedCount list \<Rightarrow> DecodedCount list \<times> bool" where
  "countMatch seg segChecksum [] = ([], False)"
| "countMatch seg segChecksum (c # cs) =
     (if segmentMatches seg segChecksum c then (c\<lparr>count := count c + 1\<rparr> # cs, True)
      else (case countMatch seg segChecksum cs of (cs', found) \<Rightarrow> (c # cs', found)))"

text \<open>
  One round of the outer loop, lines 803 to 828. \<open>counts\<close> holds the \<open>uniqueCount\<close>
  groups made so far.
\<close>

definition countSegment :: "DecodedIR \<times> bool \<Rightarrow> DecodedCount list \<Rightarrow> DecodedCount list" where
  "countSegment sc counts =
     (case sc of (seg, segChecksum) \<Rightarrow>
      if brand seg \<noteq> UNKNOWN \<and> command seg \<noteq> -1 then
        (case countMatch seg segChecksum counts of (counts', found) \<Rightarrow>
           if found then counts'
           else if length counts < IR_LIB_MAX_DECODED_SEGMENTS
           then counts @ [\<lparr>data = seg, count = 1,
                            checksumValidForNEC = (if brand seg = NEC then segChecksum else False)\<rparr>]
           else counts)
      else counts)"

definition countSegments :: "DecodedIR list \<Rightarrow> nat \<Rightarrow> bool list \<Rightarrow> DecodedCount list" where
  "countSegments segments n segmentChecksums =
     fold countSegment (map (\<lambda>i. (segments ! i, segmentChecksums ! i)) [0..<n]) []"

text \<open>The loop of lines 831 to 837; it carries \<open>maxCount\<close> and \<open>winnerIndex\<close>.\<close>

definition pickWinnerStep :: "DecodedCount list \<Rightarrow> nat \<Rightarrow> int \<times> int \<Rightarrow> int \<times> int" where
  "pickWinnerStep counts i mw =
     (case mw of (maxCount, winnerIndex) \<Rightarrow>
      if count (counts ! i) > maxCount then (count (counts ! i), int i) else (maxCount, winnerIndex))"

definition pickWinner :: "DecodedCount list \<Rightarrow> DecodedIR" where
  "pickWinner counts =
     (case fold (pickWinnerStep counts) [0..<length counts] (0, -1) of (maxCount, winnerIndex) \<Rightarrow>
      if winnerIndex \<noteq> -1 then data (counts ! nat winnerIndex) else DecodedIR_default)"

text \<open>
  \<open>determineWinner\<close> returns the new \<open>m_finalResultCode\<close>; \<open>n\<close> is its \<open>count\<close>
  argument.
\<close>

definition determineWinner :: "DecodedIR list \<Rightarrow> nat \<Rightarrow> bool list \<Rightarrow> DecodedIR" where
  "determineWinner segments n segmentChecksums =
     (if n = 0 then DecodedIR_default
      else pickWinner (countSegments segments n segmentChecksums))"

section \<open>Burst analysis\<close>

text \<open>
  The winner selection of lines 282 to 290: the loop runs over the enum values 1 to 3,
  which are \<open>JVC\<close>, \<open>SONY\<close> and \<open>NEC\<close> in this order, and carries \<open>maxScore\<close> and
  \<open>winningBrand\<close>.
\<close>

definition winnerStep :: "(RemoteBrand \<Rightarrow> int) \<Rightarrow> RemoteBrand \<Rightarrow> int \<times> RemoteBrand \<Rightarrow> int \<times> RemoteBrand" where
  "winnerStep scores b mw =
     (case mw of (maxScore, winningBrand) \<Rightarrow>
      if scores b > maxScore then (scores b, b) else (maxScore, winningBrand))"

definition selectWinningBrand :: "(RemoteBrand \<Rightarrow> int) \<Rightarrow> RemoteBrand" where
  "selectWinningBrand scores =
     (case fold (winnerStep scores) [JVC, SONY, NEC] (0, UNKNOWN) of (maxScore, winningBrand) \<Rightarrow>
      if maxScore = 0 then UNKNOWN else winningBrand)"

definition brandScoresOf :: "PulseSpacePair list \<Rightarrow> RemoteBrand \<Rightarrow> int" where
  "brandScoresOf pairs =
     (\<lambda>_. 0)(SONY := scoreSonySIRC12 pairs, JVC := scoreJVC pairs, NEC := scoreNEC pairs)"

text \<open>
  The state of the segment loop of lines 314 to 358: the segments decoded so far
  (\<open>m_decodedSegments\<close> up to \<open>m_decodedSegmentCount\<close>), the local \<open>segmentChecksums\<close> up
  to the same count, and the two indices.
\<close>

record SegmentWalk =
  decoded :: "DecodedIR list"
  checksums :: "bool list"
  currentSegmentStartPairIndex :: nat
  dataStartForCurrentSegment :: nat

definition brandRepeatDelay :: "RemoteBrand \<Rightarrow> int" where
  "brandRepeatDelay winningBrand =
     (if winningBrand = SONY then SONY_REPEAT_DELAY
      else if winningBrand = NEC then NEC_REPEAT_DELAY
      else if winningBrand = JVC then JVC_REPEAT_DELAY
      else 0)"

definition decodeSegmentStep :: "RemoteBrand \<Rightarrow> PulseSpacePair list \<Rightarrow> nat \<Rightarrow> SegmentWalk \<Rightarrow> SegmentWalk" where
  "decodeSegmentStep winningBrand pairs i w =
     (let brand_repeat_delay = brandRepeatDelay winningBrand;
          isSegmentEnd =
            (if brand_repeat_delay > 0 \<and> space (pairs ! i) \<noteq> -1 \<and>
                isWithinTolerance (space (pairs ! i)) brand_repeat_delay 5000 then True
             else if Suc i = length pairs then True
             else False)
      in if isSegmentEnd then
           let dataOffset = currentSegmentStartPairIndex w + dataStartForCurrentSegment w;
               numDataPairsInSegment = int i - int dataOffset + 1;
               segmentData = take (nat numDataPairsInSegment) (drop dataOffset pairs);
               w1 =
                 (if numDataPairsInSegment > 0 then
                    if winningBrand = NEC then
                      let necResult = decodeNECData segmentData
                      in if brand (base necResult) \<noteq> UNKNOWN
                         then w\<lparr>decoded := decoded w @ [base necResult],
                                checksums := checksums w @ [checksumValid necResult]\<rparr>
                         else w
                    else
                      let r = decodeWinningSegment winningBrand segmentData
                      in if brand r \<noteq> UNKNOWN
                         then w\<lparr>decoded := decoded w @ [r], checksums := checksums w @ [False]\<rparr>
                         else w
                  else w);
               next = i + 1
           in w1\<lparr>currentSegmentStartPairIndex := next,
                  dataStartForCurrentSegment :=
                    (if next < length pairs \<and> pulse (pairs ! next) \<noteq> -1 \<and> space (pairs ! next) \<noteq> -1 \<and>
                        matchPreamble (pulse (pairs ! next)) (space (pairs ! next)) True = winningBrand
                     then 1 else 0)\<rparr>
         else w)"

function decodeSegmentsLoop :: "RemoteBrand \<Rightarrow> PulseSpacePair list \<Rightarrow> nat \<Rightarrow> SegmentWalk \<Rightarrow> SegmentWalk" where
  "decodeSegmentsLoop winningBrand pairs i w =
     (if i < length pairs \<and> length (decoded w) < IR_LIB_MAX_DECODED_SEGMENTS
      then decodeSegmentsLoop winningBrand pairs (Suc i) (decodeSegmentStep winningBrand pairs i w)
      else w)"
  by pat_completeness auto
termination
  by (relation "measure (\<lambda>(winningBrand, pairs, i, w). length pairs - i)") auto

declare decodeSegmentsLoop.simps [simp del]

definition analyzeAndDecodeBurst :: "IRReceiver \<Rightarrow> IRReceiver" where
  "analyzeAndDecodeBurst s =
     (let pairs = m_pulseSpacePairs s;
          s0 = s\<lparr>m_brandScores := (\<lambda>_. 0), m_decodedSegments := [],
                 m_finalResultCode := DecodedIR_default, m_codeResultIsReady := False\<rparr>
      in if length pairs = 0 then s0
         else
           let s1 = s0\<lparr>m_brandScores := brandScoresOf pairs\<rparr>;
               winningBrand = selectWinningBrand (m_brandScores s1)
           in if winningBrand = UNKNOWN then s1
              else
                let initialPreambleOffset =
                      (if pulse (pairs ! 0) \<noteq> -1 \<and> space (pairs ! 0) \<noteq> -1 \<and>
                          matchPreamble (pulse (pairs ! 0)) (space (pairs ! 0)) False \<noteq> UNKNOWN \<and>
                          matchPreamble (pulse (pairs ! 0)) (space (pairs ! 0)) False = winningBrand
                       then 1 else 0);
                    w = decodeSegmentsLoop winningBrand pairs 0
                          \<lparr>decoded = [], checksums = [], currentSegmentStartPairIndex = 0,
                           dataStartForCurrentSegment = initialPreambleOffset\<rparr>;
                    s2 = s1\<lparr>m_decodedSegments := decoded w\<rparr>
                in if length (decoded w) > 0 then
                     let s3 = s2\<lparr>m_finalResultCode :=
                                   determineWinner (decoded w) (length (decoded w)) (checksums w)\<rparr>
                     in if brand (m_finalResultCode s3) \<noteq> UNKNOWN \<and> command (m_finalResultCode s3) \<noteq> -1
                        then s3\<lparr>m_codeResultIsReady := True\<rparr> else s3
                   else s2)"

section \<open>Poll entry point\<close>

text \<open>
  \<open>isCode\<close>: \<open>nowMillis\<close> is \<open>millis()\<close>; the subtraction and the comparison with the idle
  timeout are on \<open>unsigned long\<close>. The copy between \<open>cli()\<close> and \<open>sei()\<close> takes the first
  \<open>IR_LIB_MAX_TRANSITIONS\<close> transitions and empties the buffer.
\<close>

definition isCode :: "32 word \<Rightarrow> IRReceiver \<Rightarrow> bool \<times> IRReceiver" where
  "isCode nowMillis s =
     (if \<not> m_isInterruptAttached s then (if m_codeResultIsReady s then (True, s) else (False, s))
      else if m_codeResultIsReady s then (True, s)
      else if length (m_rawTransitions s) > 0 \<and>
              nowMillis - m_lastTransitionMillis s > word_of_int IR_LIB_IDLE_TIMEOUT_MS \<and>
              \<not> m_rawBurstCopied s
      then
        let localTransitions = take IR_LIB_MAX_TRANSITIONS (m_rawTransitions s);
            s1 = s\<lparr>m_rawTransitions := [], m_rawBurstCopied := True,
                   m_pulseSpacePairs := processRawTransitionsToPairs localTransitions\<rparr>;
            s2 = (if length (m_pulseSpacePairs s1) > 0 then analyzeAndDecodeBurst s1
                  else s1\<lparr>m_rawBurstCopied := False\<rparr>)
        in (m_codeResultIsReady s2, s2)
      else if length (m_rawTransitions s) = 0 \<and> m_rawBurstCopied s
      then (False, s\<lparr>m_rawBurstCopied := False\<rparr>)
      else (False, s))"

section \<open>Executions\<close>

text \<open>
  The receivers an execution can be in: the constructed receiver, and from there any
  sequence of calls of the public methods and of runs of the interrupt handler, which the
  hardware starts only while the interrupt is attached. The handler is taken to run
  between the calls: it writes only members that the poll context reads inside
  \<open>cli()\<close>/\<open>sei()\<close> or before it.
\<close>

inductive reachable :: "IRReceiver \<Rightarrow> bool" where
  r_new: "reachable IRReceiver_new"
| r_begin: "reachable s \<Longrightarrow> reachable (snd (begin_pin pin pinLevel nowMillis canInterrupt s))"
| r_enable: "reachable s \<Longrightarrow> reachable (enable pinLevel nowMillis canInterrupt s)"
| r_disable: "reachable s \<Longrightarrow> reachable (disable s)"
| r_isCode: "reachable s \<Longrightarrow> reachable (snd (isCode nowMillis s))"
| r_getCode: "reachable s \<Longrightarrow> reachable (snd (getCode s))"
| r_interrupt: "reachable s \<Longrightarrow> m_isInterruptAttached s \<Longrightarrow>
     reachable (handleIrInterrupt_priv currentTimeMicros currentState nowMillis s)"

section \<open>The vote as the specification words it\<close>

text \<open>A decoded frame takes part in the vote and can become the result.\<close>

definition validSegment :: "DecodedIR \<Rightarrow> bool" where
  "validSegment seg \<longleftrightarrow> brand seg \<noteq> UNKNOWN \<and> command seg \<noteq> -1"

text \<open>
  Two decoded segments, each with its checksum flag, fall into the same group when
  brand, command and address are equal and, for the brand that carries a checksum (NEC),
  the checksum flags are equal too.
\<close>

definition sameGroup :: "DecodedIR \<times> bool \<Rightarrow> DecodedIR \<times> bool \<Rightarrow> bool" where
  "sameGroup a b \<longleftrightarrow>
     brand (fst a) = brand (fst b) \<and> command (fst a) = command (fst b) \<and>
     address (fst a) = address (fst b) \<and> (brand (fst a) = NEC \<longrightarrow> snd a = snd b)"

text \<open>The number of the first \<open>n\<close> segments that fall into the group of segment \<open>i\<close>.\<close>

definition occurrences :: "DecodedIR list \<Rightarrow> nat \<Rightarrow> bool list \<Rightarrow> nat \<Rightarrow> nat" where
  "occurrences segments n segmentChecksums i =
     length (filter (\<lambda>j. sameGroup (segments ! i, segmentChecksums ! i) (segments ! j, segmentChecksums ! j))
               [0..<n])"

text \<open>
  A group is named by the value of its segments and, for NEC, their checksum flag; for
  the other brands the flag plays no part and the name carries \<open>False\<close>.
\<close>

definition groupKey :: "DecodedIR \<times> bool \<Rightarrow> DecodedIR \<times> bool" where
  "groupKey z = (fst z, brand (fst z) = NEC \<and> snd z)"

text \<open>The elements of a list in the order of their first occurrence.\<close>

fun firstOccurrences :: "'a list \<Rightarrow> 'a list" where
  "firstOccurrences [] = []"
| "firstOccurrences (x # xs) = x # removeAll x (firstOccurrences xs)"

text \<open>The group record of a name, counted over a list of names.\<close>

definition groupFor :: "(DecodedIR \<times> bool) list \<Rightarrow> DecodedIR \<times> bool \<Rightarrow> DecodedCount" where
  "groupFor ks k = \<lparr>data = fst k, count = int (count_list ks k), checksumValidForNEC = snd k\<rparr>"

text \<open>The names of the segments that take part in the vote, in segment order.\<close>

definition votingKeys :: "(DecodedIR \<times> bool) list \<Rightarrow> (DecodedIR \<times> bool) list" where
  "votingKeys zs = map groupKey (filter (\<lambda>z. validSegment (fst z)) zs)"

section \<open>Example executions\<close>

text \<open>
  A SONY burst of seven data pulses (command 21, least significant bit first) as the
  interrupt handler sees it: the time in microseconds, the new level of the pin, and the
  time in milliseconds of each edge.
\<close>

definition sonyEdges :: "(32 word \<times> PinLevel \<times> 32 word) list" where
  "sonyEdges =
     [(1000, LOW, 1), (2200, HIGH, 2), (2800, LOW, 2), (3400, HIGH, 3),
      (4000, LOW, 4), (5200, HIGH, 5), (5800, LOW, 5), (6400, HIGH, 6),
      (7000, LOW, 7), (8200, HIGH, 8), (8800, LOW, 8), (9400, HIGH, 9),
      (10000, LOW, 10), (10600, HIGH, 10)]"

definition runInterrupts :: "(32 word \<times> PinLevel \<times> 32 word) list \<Rightarrow> IRReceiver \<Rightarrow> IRReceiver" where
  "runInterrupts edges s = fold (\<lambda>(t, l, m). handleIrInterrupt_priv t l m) edges s"

text \<open>\<open>begin(4)\<close> on a pin that is high and can interrupt, then the burst.\<close>

definition sonyCaptured :: IRReceiver where
  "sonyCaptured = runInterrupts sonyEdges (snd (begin_pin 4 HIGH 0 True IRReceiver_new))"

text \<open>The receiver after \<open>isCode()\<close> has been called 190 ms after the last edge.\<close>

definition sonyPolled :: IRReceiver where
  "sonyPolled = snd (isCode 200 sonyCaptured)"

text \<open>
  A burst of sixteen equal pulses of 560 us separated by equal spaces of 560 us.
\<close>

definition tieEdges :: "(32 word \<times> PinLevel \<times> 32 word) list" where
  "tieEdges =
     [(1000, LOW, 1), (1560, HIGH, 1), (2120, LOW, 2), (2680, HIGH, 2),
      (3240, LOW, 3), (3800, HIGH, 3), (4360, LOW, 4), (4920, HIGH, 4),
      (5480, LOW, 5), (6040, HIGH, 6), (6600, LOW, 6), (7160, HIGH, 7),
      (7720, LOW, 7), (8280, HIGH, 8), (8840, LOW, 8), (9400, HIGH, 9),
      (9960, LOW, 9), (10520, HIGH, 10), (11080, LOW, 11), (11640, HIGH, 11),
      (12200, LOW, 12), (12760, HIGH, 12), (13320, LOW, 13), (13880, HIGH, 13),
      (14440, LOW, 14), (15000, HIGH, 15), (15560, LOW, 15), (16120, HIGH, 16),
      (16680, LOW, 16), (17240, HIGH, 17), (17800, LOW, 17), (18360, HIGH, 18)]"

text \<open>The receiver after this burst and an \<open>isCode()\<close> 480 ms after its last edge.\<close>

definition tiePolled :: IRReceiver where
  "tiePolled =
     snd (isCode 500 (runInterrupts tieEdges (snd (begin_pin 4 HIGH 0 True IRReceiver_new))))"

text \<open>
  A burst of one pulse of 600 us followed by one space of 600 us.
\<close>

definition singleEdges :: "(32 word \<times> PinLevel \<times> 32 word) list" where
  "singleEdges =
     [(1000, LOW, 1), (1600, HIGH, 1), (2200, LOW, 2)]"

definition singlePolled :: IRReceiver where
  "singlePolled =
     snd (isCode 500 (runInterrupts singleEdges (snd (begin_pin 4 HIGH 0 True IRReceiver_new))))"

text \<open>
  A burst of eleven SONY segments of two data pulses each (600 us and 1200 us, with a
  space of 600 us between them), separated by the SONY repeat gap of 25 ms.
\<close>

definition elevenEdges :: "(32 word \<times> PinLevel \<times> 32 word) list" where
  "elevenEdges =
     [(1000, LOW, 1), (1600, HIGH, 1), (2200, LOW, 2), (3400, HIGH, 3),
      (28400, LOW, 28), (29000, HIGH, 29), (29600, LOW, 29), (30800, HIGH, 30),
      (55800, LOW, 55), (56400, HIGH, 56), (57000, LOW, 57), (58200, HIGH, 58),
      (83200, LOW, 83), (83800, HIGH, 83), (84400, LOW, 84), (85600, HIGH, 85),
      (110600, LOW, 110), (111200, HIGH, 111), (111800, LOW, 111), (113000, HIGH, 113),
      (138000, LOW, 138), (138600, HIGH, 138), (139200, LOW, 139), (140400, HIGH, 140),
      (165400, LOW, 165), (166000, HIGH, 166), (166600, LOW, 166), (167800, HIGH, 167),
      (192800, LOW, 192), (193400, HIGH, 193), (194000, LOW, 194), (195200, HIGH, 195),
      (220200, LOW, 220), (220800, HIGH, 220), (221400, LOW, 221), (222600, HIGH, 222),
      (247600, LOW, 247), (248200, HIGH, 248), (248800, LOW, 248), (250000, HIGH, 250),
      (275000, LOW, 275), (275600, HIGH, 275), (276200, LOW, 276), (277400, HIGH, 277)]"

definition elevenPolled :: IRReceiver where
  "elevenPolled =
     snd (isCode 500 (runInterrupts elevenEdges (snd (begin_pin 4 HIGH 0 True IRReceiver_new))))"

text \<open>
  The state of the segment loop once the first ten segments of that burst are recorded,
  with the eleventh segment (pairs 20 and 21) still to come.
\<close>

definition elevenFull :: SegmentWalk where
  "elevenFull =
     \<lparr>decoded = m_decodedSegments elevenPolled, checksums = replicate 10 False,
      currentSegmentStartPairIndex = 20, dataStartForCurrentSegment = 0\<rparr>"

text \<open>
  The data pairs of an NEC frame that breaks off after 24 bits: address byte \<open>0x00\<close>,
  its complement \<open>0xFF\<close> and command byte \<open>0x0C\<close>, least significant bit first.
\<close>

definition necPartialPairs :: "PulseSpacePair list" where
  "necPartialPairs =
     [\<lparr>pulse = 563, space = 563\<rparr>, \<lparr>pulse = 563, space = 563\<rparr>, \<lparr>pulse = 563, space = 563\<rparr>,
      \<lparr>pulse = 563, space = 563\<rparr>, \<lparr>pulse = 563, space = 563\<rparr>, \<lparr>pulse = 563, space = 563\<rparr>,
      \<lparr>pulse = 563, space = 563\<rparr>, \<lparr>pulse = 563, space = 563\<rparr>, \<lparr>pulse = 563, space = 1689\<rparr>,
      \<lparr>pulse = 563, space = 1689\<rparr>, \<lparr>pulse = 563, space = 1689\<rparr>, \<lparr>pulse = 563, space = 1689\<rparr>,
      \<lparr>pulse = 563, space = 1689\<rparr>, \<lparr>pulse = 563, space = 1689\<rparr>, \<lparr>pulse = 563, space = 1689\<rparr>,
      \<lparr>pulse = 563, space = 1689\<rparr>, \<lparr>pulse = 563, space = 563\<rparr>, \<lparr>pulse = 563, space = 563\<rparr>,
      \<lparr>pulse = 563, space = 1689\<rparr>, \<lparr>pulse = 563, space = 1689\<rparr>, \<lparr>pulse = 563, space = 563\<rparr>,
      \<lparr>pulse = 563, space = 563\<rparr>, \<lparr>pulse = 563, space = 563\<rparr>, \<lparr>pulse = 563, space = 563\<rparr>]"

text \<open>
  The 32 data pairs of a complete NEC frame without its preamble: the 24 pairs above
  followed by the complement \<open>0xF3\<close> of the command byte. JVC scores 1 on them and
  NEC scores 2.
\<close>

definition necFullPairs :: "PulseSpacePair list" where
  "necFullPairs =
     necPartialPairs @
       [\<lparr>pulse = 563, space = 1689\<rparr>, \<lparr>pulse = 563, space = 1689\<rparr>, \<lparr>pulse = 563, space = 563\<rparr>,
        \<lparr>pulse = 563, space = 563\<rparr>, \<lparr>pulse = 563, space = 1689\<rparr>, \<lparr>pulse = 563, space = 1689\<rparr>,
        \<lparr>pulse = 563, space = 1689\<rparr>, \<lparr>pulse = 563, space = 1689\<rparr>]"

text \<open>A receiver whose pair extractor has left these pairs.\<close>

definition necLoaded :: IRReceiver where
  "necLoaded = IRReceiver_new\<lparr>m_pulseSpacePairs := necFullPairs\<rparr>"

text \<open>
  Four decoded segments with two values that occur twice each, the first value first.
\<close>

definition tiedSegments :: "DecodedIR list" where
  "tiedSegments =
     [\<lparr>brand = SONY, command = 21, address = 1\<rparr>, \<lparr>brand = SONY, command = 22, address = 1\<rparr>,
      \<lparr>brand = SONY, command = 22, address = 1\<rparr>, \<lparr>brand = SONY, command = 21, address = 1\<rparr>]"

text \<open>Three NEC segments of one value; the checksum of the second failed.\<close>

definition necSegments :: "DecodedIR list" where
  "necSegments = replicate 3 \<lparr>brand = NEC, command = 12, address = 0\<rparr>"

section \<open>Invariants of the executions\<close>

text \<open>
  A result is only ever pending while the interrupt is attached, and the interrupt is
  only ever attached to a pin that has been set.
\<close>

definition attachment_inv :: "IRReceiver \<Rightarrow> bool" where
  "attachment_inv s \<longleftrightarrow>
     (m_codeResultIsReady s \<longrightarrow> m_isInterruptAttached s) \<and>
     (m_isInterruptAttached s \<longrightarrow> m_irPin s \<noteq> -1)"

text \<open>
  The result slot holds the empty value or a frame with a known brand and a command, and
  it holds such a frame whenever the ready flag is set.
\<close>

definition result_inv :: "IRReceiver \<Rightarrow> bool" where
  "result_inv s \<longleftrightarrow>
     (m_finalResultCode s = DecodedIR_default \<or> validSegment (m_finalResultCode s)) \<and>
     (m_codeResultIsReady s \<longrightarrow> validSegment (m_finalResultCode s))"

section \<open>Verified properties\<close>

subsection \<open>Timestamps\<close>




subsection \<open>Retrieval\<close>

text \<open>
  C5. \<open>getCode()\<close> consumes the pending result: when a result is ready the call returns
  it and clears the ready flag, changing nothing else, and a second call right after
  returns the empty value; when no result is pending the call returns the empty value
  and leaves the receiver as it is. The empty value has brand \<open>UNKNOWN\<close>, command \<open>-1\<close>
  and address \<open>-1\<close>. A poll in between does not bring a result back as long as no new
  edge has been captured.
\<close>

theorem getCode_consumes:
  "(m_codeResultIsReady s \<longrightarrow>
      fst (getCode s) = m_finalResultCode s \<and>
      snd (getCode s) = s\<lparr>m_codeResultIsReady := False\<rparr> \<and>
      getCode (snd (getCode s)) = (DecodedIR_default, snd (getCode s))) \<and>
   (\<not> m_codeResultIsReady s \<longrightarrow> getCode s = (DecodedIR_default, s)) \<and>
   (\<not> m_codeResultIsReady s \<and> m_rawTransitions s = [] \<longrightarrow>
      fst (isCode nowMillis s) = False \<and>
      fst (getCode (snd (isCode nowMillis s))) = DecodedIR_default) \<and>
   DecodedIR_default = \<lparr>brand = UNKNOWN, command = -1, address = -1\<rparr>"
  by (simp add: getCode_def isCode_def DecodedIR_default_def)

theorem getCode_consumes_witness:
  "m_codeResultIsReady sonyPolled \<and>
   fst (getCode sonyPolled) = \<lparr>brand = SONY, command = 21, address = -1\<rparr> \<and>
   \<not> m_codeResultIsReady (snd (getCode sonyPolled)) \<and>
   fst (getCode (snd (getCode sonyPolled))) = \<lparr>brand = UNKNOWN, command = -1, address = -1\<rparr> \<and>
   m_rawTransitions (snd (getCode sonyPolled)) = [] \<and>
   fst (isCode 300 (snd (getCode sonyPolled))) = False \<and>
   fst (getCode (snd (isCode 300 (snd (getCode sonyPolled))))) =
     \<lparr>brand = UNKNOWN, command = -1, address = -1\<rparr> \<and>
   \<not> m_codeResultIsReady IRReceiver_new \<and>
   getCode IRReceiver_new = (\<lparr>brand = UNKNOWN, command = -1, address = -1\<rparr>, IRReceiver_new)"
proof -
  have r: "m_codeResultIsReady sonyPolled"
    by code_simp
  have f: "m_finalResultCode sonyPolled = \<lparr>brand = SONY, command = 21, address = -1\<rparr>"
    by code_simp
  have e: "m_rawTransitions (snd (getCode sonyPolled)) = []"
    by code_simp
  have n: "\<not> m_codeResultIsReady IRReceiver_new"
    by (simp add: IRReceiver_new_def)
  note c = getCode_consumes [of sonyPolled]
  from c r f have g1: "fst (getCode sonyPolled) = \<lparr>brand = SONY, command = 21, address = -1\<rparr>"
    by simp
  from c r have "snd (getCode sonyPolled) = sonyPolled\<lparr>m_codeResultIsReady := False\<rparr>"
    by blast
  then have g2: "\<not> m_codeResultIsReady (snd (getCode sonyPolled))"
    by simp
  from c r have "getCode (snd (getCode sonyPolled)) = (DecodedIR_default, snd (getCode sonyPolled))"
    by blast
  moreover from c have d: "DecodedIR_default = \<lparr>brand = UNKNOWN, command = -1, address = -1\<rparr>"
    by blast
  ultimately have g3:
    "fst (getCode (snd (getCode sonyPolled))) = \<lparr>brand = UNKNOWN, command = -1, address = -1\<rparr>"
    by simp
  from getCode_consumes [of "snd (getCode sonyPolled)" 300] g2 e
  have "fst (isCode 300 (snd (getCode sonyPolled))) = False \<and>
        fst (getCode (snd (isCode 300 (snd (getCode sonyPolled))))) = DecodedIR_default"
    by blast
  with d have g5: "fst (isCode 300 (snd (getCode sonyPolled))) = False"
    and g6: "fst (getCode (snd (isCode 300 (snd (getCode sonyPolled))))) =
      \<lparr>brand = UNKNOWN, command = -1, address = -1\<rparr>"
    by simp_all
  from getCode_consumes [of IRReceiver_new] n d
  have g4: "getCode IRReceiver_new = (\<lparr>brand = UNKNOWN, command = -1, address = -1\<rparr>, IRReceiver_new)"
    by simp
  from r g1 g2 g3 e g5 g6 n g4 show ?thesis
    by (intro conjI)
qed

subsection \<open>Attachment and the ready flag\<close>

lemma analyze_keeps_attachment:
  "m_isInterruptAttached (analyzeAndDecodeBurst s) = m_isInterruptAttached s"
  "m_irPin (analyzeAndDecodeBurst s) = m_irPin s"
  by (simp_all add: analyzeAndDecodeBurst_def Let_def)

lemma isCode_attachment_inv: "attachment_inv s \<Longrightarrow> attachment_inv (snd (isCode nowMillis s))"
  by (auto simp add: attachment_inv_def isCode_def Let_def analyze_keeps_attachment)

lemma reachable_attachment_inv: "reachable s \<Longrightarrow> attachment_inv s"
proof (induction rule: reachable.induct)
  case r_new
  show ?case
    by (simp add: attachment_inv_def IRReceiver_new_def)
next
  case (r_begin s pin pinLevel nowMillis canInterrupt)
  then show ?case
    by (auto simp add: attachment_inv_def begin_pin_def enable_def disable_def Let_def)
next
  case (r_enable s pinLevel nowMillis canInterrupt)
  then show ?case
    by (auto simp add: attachment_inv_def enable_def)
next
  case (r_disable s)
  then show ?case
    by (simp add: attachment_inv_def disable_def)
next
  case (r_isCode s nowMillis)
  from r_isCode.IH show ?case
    by (rule isCode_attachment_inv)
next
  case (r_getCode s)
  then show ?case
    by (simp add: attachment_inv_def getCode_def)
next
  case (r_interrupt s currentTimeMicros currentState nowMillis)
  then show ?case
    by (simp add: attachment_inv_def handleIrInterrupt_priv_def Let_def)
qed

lemma runInterrupts_reachable:
  "reachable s \<Longrightarrow> m_isInterruptAttached s \<Longrightarrow> reachable (runInterrupts edges s)"
proof (induction edges arbitrary: s)
  case Nil
  then show ?case
    by (simp add: runInterrupts_def)
next
  case (Cons e edges)
  obtain t l m where e: "e = (t, l, m)"
    by (cases e)
  have "reachable (handleIrInterrupt_priv t l m s)"
    using Cons.prems by (rule r_interrupt)
  moreover have "m_isInterruptAttached (handleIrInterrupt_priv t l m s)"
    using Cons.prems(2) by (simp add: handleIrInterrupt_priv_def Let_def)
  ultimately have "reachable (runInterrupts edges (handleIrInterrupt_priv t l m s))"
    by (rule Cons.IH)
  then show ?case
    by (simp add: runInterrupts_def e)
qed

lemma begun_reachable:
  "reachable (snd (begin_pin 4 HIGH 0 True IRReceiver_new)) \<and>
   m_isInterruptAttached (snd (begin_pin 4 HIGH 0 True IRReceiver_new))"
proof
  show "reachable (snd (begin_pin 4 HIGH 0 True IRReceiver_new))"
    by (intro r_begin r_new)
  show "m_isInterruptAttached (snd (begin_pin 4 HIGH 0 True IRReceiver_new))"
    by (simp add: begin_pin_def enable_def IRReceiver_new_def)
qed

lemma sonyCaptured_reachable: "reachable sonyCaptured"
  unfolding sonyCaptured_def using begun_reachable by (simp add: runInterrupts_reachable)

lemma sonyPolled_reachable: "reachable sonyPolled"
  unfolding sonyPolled_def using sonyCaptured_reachable by (rule r_isCode)

lemma tiePolled_reachable: "reachable tiePolled"
  unfolding tiePolled_def using begun_reachable by (simp add: runInterrupts_reachable r_isCode)

lemma singlePolled_reachable: "reachable singlePolled"
  unfolding singlePolled_def using begun_reachable by (simp add: runInterrupts_reachable r_isCode)

lemma elevenPolled_reachable: "reachable elevenPolled"
  unfolding elevenPolled_def using begun_reachable by (simp add: runInterrupts_reachable r_isCode)

text \<open>
  C3. The claim is that a result that is pending when \<open>disable()\<close> is called stays
  retrievable. The code does the opposite: in every execution, when a result is pending
  (\<open>isCode()\<close> returns true), \<open>disable()\<close> clears the ready flag, so that the next
  \<open>isCode()\<close> returns false and the next \<open>getCode()\<close> returns the empty value. The
  branch of \<open>isCode()\<close> written for a result pending from before \<open>disable()\<close> is never
  taken.
\<close>

theorem disable_discards_pending:
  assumes "reachable s" and "m_codeResultIsReady s"
  shows "fst (isCode nowMillis s) = True \<and>
         isCode nowMillis' (disable s) = (False, disable s) \<and>
         getCode (disable s) = (DecodedIR_default, disable s)"
proof -
  from assms have att: "m_isInterruptAttached s" "m_irPin s \<noteq> -1"
    using reachable_attachment_inv [of s] by (simp_all add: attachment_inv_def)
  then have d: "\<not> m_codeResultIsReady (disable s)" "\<not> m_isInterruptAttached (disable s)"
    by (simp_all add: disable_def)
  from assms(2) have "fst (isCode nowMillis s) = True"
    by (simp add: isCode_def)
  moreover from d have "isCode nowMillis' (disable s) = (False, disable s)"
    by (simp add: isCode_def)
  moreover from d have "getCode (disable s) = (DecodedIR_default, disable s)"
    by (simp add: getCode_def)
  ultimately show ?thesis
    by simp
qed

theorem disable_discards_pending_witness:
  "reachable sonyPolled \<and> m_codeResultIsReady sonyPolled \<and>
   m_finalResultCode sonyPolled = \<lparr>brand = SONY, command = 21, address = -1\<rparr> \<and>
   fst (isCode 250 sonyPolled) = True \<and>
   isCode 300 (disable sonyPolled) = (False, disable sonyPolled) \<and>
   getCode (disable sonyPolled) = (DecodedIR_default, disable sonyPolled)"
proof -
  have r: "m_codeResultIsReady sonyPolled"
    by code_simp
  have f: "m_finalResultCode sonyPolled = \<lparr>brand = SONY, command = 21, address = -1\<rparr>"
    by code_simp
  from disable_discards_pending [OF sonyPolled_reachable r, of 250 300] r f sonyPolled_reachable
  show ?thesis by simp
qed

subsection \<open>The number of decoded segments\<close>

lemma decodeSegmentStep_length:
  "length (decoded (decodeSegmentStep winningBrand pairs i w)) \<le> Suc (length (decoded w))"
  by (simp add: decodeSegmentStep_def Let_def)

lemma decodeSegmentsLoop_bound:
  "length (decoded w) \<le> IR_LIB_MAX_DECODED_SEGMENTS \<Longrightarrow>
   length (decoded (decodeSegmentsLoop winningBrand pairs i w)) \<le> IR_LIB_MAX_DECODED_SEGMENTS"
proof (induction winningBrand pairs i w rule: decodeSegmentsLoop.induct)
  case (1 winningBrand pairs i w)
  show ?case
  proof (cases "i < length pairs \<and> length (decoded w) < IR_LIB_MAX_DECODED_SEGMENTS")
    case True
    then have "length (decoded (decodeSegmentStep winningBrand pairs i w)) \<le> IR_LIB_MAX_DECODED_SEGMENTS"
      using decodeSegmentStep_length [of winningBrand pairs i w] by linarith
    with True "1.IH" show ?thesis
      by (subst decodeSegmentsLoop.simps) simp
  next
    case False
    with "1.prems" show ?thesis
      by (subst decodeSegmentsLoop.simps) auto
  qed
qed

lemma decodeSegmentsLoop_full:
  "length (decoded w) = IR_LIB_MAX_DECODED_SEGMENTS \<Longrightarrow> decodeSegmentsLoop winningBrand pairs i w = w"
  by (subst decodeSegmentsLoop.simps) simp

lemma analyze_segment_bound:
  "length (m_decodedSegments (analyzeAndDecodeBurst s)) \<le> IR_LIB_MAX_DECODED_SEGMENTS"
proof -
  have "length (decoded (decodeSegmentsLoop b (m_pulseSpacePairs s) 0
          \<lparr>decoded = [], checksums = [], currentSegmentStartPairIndex = 0,
           dataStartForCurrentSegment = k\<rparr>)) \<le> IR_LIB_MAX_DECODED_SEGMENTS" for b k
    by (rule decodeSegmentsLoop_bound) simp
  then show ?thesis
    by (simp add: analyzeAndDecodeBurst_def Let_def)
qed

lemma reachable_segment_bound:
  "reachable s \<Longrightarrow> length (m_decodedSegments s) \<le> IR_LIB_MAX_DECODED_SEGMENTS"
proof (induction rule: reachable.induct)
  case r_new
  show ?case by (simp add: IRReceiver_new_def)
next
  case (r_begin s pin pinLevel nowMillis canInterrupt)
  then show ?case
    by (simp add: begin_pin_def enable_def disable_def Let_def)
next
  case (r_enable s pinLevel nowMillis canInterrupt)
  then show ?case by (simp add: enable_def)
next
  case (r_disable s)
  then show ?case by (simp add: disable_def)
next
  case (r_isCode s nowMillis)
  then show ?case
    by (simp add: isCode_def Let_def analyze_segment_bound)
next
  case (r_getCode s)
  then show ?case by (simp add: getCode_def)
next
  case (r_interrupt s currentTimeMicros currentState nowMillis)
  then show ?case by (simp add: handleIrInterrupt_priv_def Let_def)
qed

lemma analyze_votes_on_recorded:
  assumes "m_decodedSegments (analyzeAndDecodeBurst t) \<noteq> []"
  shows "\<exists>cks. m_finalResultCode (analyzeAndDecodeBurst t) =
           determineWinner (m_decodedSegments (analyzeAndDecodeBurst t))
             (length (m_decodedSegments (analyzeAndDecodeBurst t))) cks"
  using assms by (auto simp add: analyzeAndDecodeBurst_def Let_def split: if_splits)

text \<open>
  C9. At most 10 decoded segments (\<open>IR_LIB_MAX_DECODED_SEGMENTS\<close>) are recorded for a
  burst: in every execution \<open>m_decodedSegmentCount\<close>, the length of \<open>m_decodedSegments\<close>,
  is at most 10; every run of the burst analysis leaves at most 10; once 10 segments are
  recorded the segment loop stops where it is, whatever pairs remain; and the vote is
  taken on the recorded segments only.
\<close>

theorem decoded_segments_bounded:
  "IR_LIB_MAX_DECODED_SEGMENTS = 10 \<and>
   (reachable s \<longrightarrow> length (m_decodedSegments s) \<le> 10) \<and>
   length (m_decodedSegments (analyzeAndDecodeBurst t)) \<le> 10 \<and>
   (length (decoded w) = 10 \<longrightarrow> decodeSegmentsLoop winningBrand pairs i w = w) \<and>
   (m_decodedSegments (analyzeAndDecodeBurst t) \<noteq> [] \<longrightarrow>
      (\<exists>cks. m_finalResultCode (analyzeAndDecodeBurst t) =
         determineWinner (m_decodedSegments (analyzeAndDecodeBurst t))
           (length (m_decodedSegments (analyzeAndDecodeBurst t))) cks))"
proof -
  have c: "IR_LIB_MAX_DECODED_SEGMENTS = 10"
    by (simp add: IR_LIB_MAX_DECODED_SEGMENTS_def)
  have "reachable s \<longrightarrow> length (m_decodedSegments s) \<le> 10"
    using reachable_segment_bound [of s] by (simp add: c)
  moreover have "length (m_decodedSegments (analyzeAndDecodeBurst t)) \<le> 10"
    using analyze_segment_bound [of t] by (simp add: c)
  moreover have "length (decoded w) = 10 \<longrightarrow> decodeSegmentsLoop winningBrand pairs i w = w"
    using decodeSegmentsLoop_full [of w winningBrand pairs i] by (simp add: c)
  ultimately show ?thesis
    using c analyze_votes_on_recorded [of t] by blast
qed

theorem decoded_segments_bounded_witness:
  "reachable elevenPolled \<and>
   m_brandScores elevenPolled SONY = 11 \<and>
   length (m_pulseSpacePairs elevenPolled) = 22 \<and>
   length (m_decodedSegments elevenPolled) = 10 \<and>
   length (decoded elevenFull) = 10 \<and>
   decodeSegmentsLoop SONY (m_pulseSpacePairs elevenPolled) 20 elevenFull = elevenFull \<and>
   m_decodedSegments (analyzeAndDecodeBurst sonyPolled) \<noteq> [] \<and>
   length (m_decodedSegments (analyzeAndDecodeBurst sonyPolled)) \<le> 10"
proof -
  note b = decoded_segments_bounded
    [of elevenPolled sonyPolled elevenFull SONY "m_pulseSpacePairs elevenPolled" 20]
  have e1: "m_brandScores elevenPolled SONY = 11"
    and e2: "length (m_pulseSpacePairs elevenPolled) = 22"
    and e3: "length (m_decodedSegments elevenPolled) = 10"
    by code_simp+
  have l: "length (decoded elevenFull) = 10"
    using e3 by (simp add: elevenFull_def)
  have n: "m_decodedSegments (analyzeAndDecodeBurst sonyPolled) \<noteq> []"
    by code_simp
  from b l have f: "decodeSegmentsLoop SONY (m_pulseSpacePairs elevenPolled) 20 elevenFull = elevenFull"
    by blast
  from b have a: "length (m_decodedSegments (analyzeAndDecodeBurst sonyPolled)) \<le> 10"
    by blast
  from elevenPolled_reachable e1 e2 e3 l f n a show ?thesis
    by (intro conjI)
qed

subsection \<open>What is written to the result slot\<close>

lemma countMatch_data: "map data (fst (countMatch seg ck cs)) = map data cs"
  by (induction cs) (auto split: prod.splits)

lemma countSegment_valid:
  assumes "\<forall>c\<in>set cs. validSegment (data c)"
  shows "\<forall>c\<in>set (countSegment z cs). validSegment (data c)"
proof -
  obtain seg ck where z: "z = (seg, ck)" by (cases z)
  obtain cs' found where cm: "countMatch seg ck cs = (cs', found)"
    by (cases "countMatch seg ck cs")
  have "\<forall>d\<in>set (map data (fst (countMatch seg ck cs))). validSegment d"
    using assms unfolding countMatch_data by simp
  then have m: "\<forall>c\<in>set cs'. validSegment (data c)"
    by (simp add: cm)
  show ?thesis
    using assms m by (auto simp add: countSegment_def z cm validSegment_def)
qed

lemma fold_countSegment_valid:
  "\<forall>c\<in>set cs. validSegment (data c) \<Longrightarrow> \<forall>c\<in>set (fold countSegment zs cs). validSegment (data c)"
proof (induction zs arbitrary: cs)
  case Nil
  then show ?case by simp
next
  case (Cons z zs)
  from Cons.prems have "\<forall>c\<in>set (countSegment z cs). validSegment (data c)"
    by (rule countSegment_valid)
  then show ?case using Cons.IH by simp
qed

lemma pickWinner_fold_index:
  "snd (fold (pickWinnerStep cs) [0..<n] (0, -1)) = -1 \<or>
   (0 \<le> snd (fold (pickWinnerStep cs) [0..<n] (0, -1)) \<and>
    nat (snd (fold (pickWinnerStep cs) [0..<n] (0, -1))) < n)"
proof (induction n)
  case 0
  show ?case by simp
next
  case (Suc n)
  obtain m w where f: "fold (pickWinnerStep cs) [0..<n] (0, -1) = (m, w)"
    by (cases "fold (pickWinnerStep cs) [0..<n] (0, -1)")
  then have g: "fold (pickWinnerStep cs) [0..<Suc n] (0, -1) = pickWinnerStep cs n (m, w)"
    by simp
  from Suc f have "w = -1 \<or> (0 \<le> w \<and> nat w < n)"
    by simp
  then show ?case
    unfolding g by (auto simp add: pickWinnerStep_def)
qed

lemma pickWinner_member: "pickWinner cs = DecodedIR_default \<or> pickWinner cs \<in> data ` set cs"
proof -
  obtain m w where f: "fold (pickWinnerStep cs) [0..<length cs] (0, -1) = (m, w)"
    by (cases "fold (pickWinnerStep cs) [0..<length cs] (0, -1)")
  from pickWinner_fold_index [of cs "length cs"] f
  have "w = -1 \<or> (0 \<le> w \<and> nat w < length cs)" by simp
  then show ?thesis
    by (auto simp add: pickWinner_def f)
qed

lemma determineWinner_valid:
  "determineWinner segments n cks = DecodedIR_default \<or> validSegment (determineWinner segments n cks)"
proof -
  have "\<forall>c\<in>set (countSegments segments n cks). validSegment (data c)"
    unfolding countSegments_def by (rule fold_countSegment_valid) simp
  with pickWinner_member [of "countSegments segments n cks"] show ?thesis
    by (auto simp add: determineWinner_def)
qed

lemma analyze_result_inv: "result_inv (analyzeAndDecodeBurst s)"
  using determineWinner_valid
  by (auto simp add: result_inv_def analyzeAndDecodeBurst_def Let_def validSegment_def)

lemma reachable_result_inv: "reachable s \<Longrightarrow> result_inv s"
proof (induction rule: reachable.induct)
  case r_new
  show ?case by (simp add: result_inv_def IRReceiver_new_def)
next
  case (r_begin s pin pinLevel nowMillis canInterrupt)
  then show ?case
    by (auto simp add: result_inv_def begin_pin_def enable_def disable_def Let_def)
next
  case (r_enable s pinLevel nowMillis canInterrupt)
  then show ?case by (auto simp add: result_inv_def enable_def)
next
  case (r_disable s)
  then show ?case by (auto simp add: result_inv_def disable_def)
next
  case (r_isCode s nowMillis)
  have "result_inv (analyzeAndDecodeBurst t)" for t by (rule analyze_result_inv)
  with r_isCode.IH show ?case
    by (auto simp add: isCode_def Let_def result_inv_def)
next
  case (r_getCode s)
  then show ?case by (auto simp add: result_inv_def getCode_def)
next
  case (r_interrupt s currentTimeMicros currentState nowMillis)
  then show ?case by (auto simp add: result_inv_def handleIrInterrupt_priv_def Let_def)
qed

text \<open>
  C7. In every execution, whenever the result-ready flag is set the stored final result
  has a known brand and a command different from \<open>-1\<close>; and what the result slot holds
  is at every point either such a frame or the empty value that the analysis resets it
  to. The vote itself only ever returns the empty value or such a frame.
\<close>

theorem final_result_valid:
  "(reachable s \<longrightarrow>
      (m_codeResultIsReady s \<longrightarrow>
         brand (m_finalResultCode s) \<noteq> UNKNOWN \<and> command (m_finalResultCode s) \<noteq> -1) \<and>
      (m_finalResultCode s \<noteq> DecodedIR_default \<longrightarrow>
         brand (m_finalResultCode s) \<noteq> UNKNOWN \<and> command (m_finalResultCode s) \<noteq> -1)) \<and>
   (determineWinner segments n segmentChecksums \<noteq> DecodedIR_default \<longrightarrow>
      brand (determineWinner segments n segmentChecksums) \<noteq> UNKNOWN \<and>
      command (determineWinner segments n segmentChecksums) \<noteq> -1)"
  using reachable_result_inv [of s] determineWinner_valid [of segments n segmentChecksums]
  by (auto simp add: result_inv_def validSegment_def)

theorem final_result_valid_witness:
  "reachable sonyPolled \<and> m_codeResultIsReady sonyPolled \<and>
   m_finalResultCode sonyPolled \<noteq> DecodedIR_default \<and>
   brand (m_finalResultCode sonyPolled) \<noteq> UNKNOWN \<and>
   command (m_finalResultCode sonyPolled) \<noteq> -1 \<and>
   determineWinner [\<lparr>brand = SONY, command = 21, address = -1\<rparr>] 1 [False] \<noteq> DecodedIR_default \<and>
   brand (determineWinner [\<lparr>brand = SONY, command = 21, address = -1\<rparr>] 1 [False]) \<noteq> UNKNOWN \<and>
   command (determineWinner [\<lparr>brand = SONY, command = 21, address = -1\<rparr>] 1 [False]) \<noteq> -1"
proof -
  have r: "m_codeResultIsReady sonyPolled \<and> m_finalResultCode sonyPolled \<noteq> DecodedIR_default"
    by code_simp
  have d: "determineWinner [\<lparr>brand = SONY, command = 21, address = -1\<rparr>] 1 [False] \<noteq> DecodedIR_default"
    by code_simp
  from final_result_valid [of sonyPolled "[\<lparr>brand = SONY, command = 21, address = -1\<rparr>]" 1 "[False]"]
    sonyPolled_reachable r d
  show ?thesis by simp
qed

subsection \<open>Selection of the winning brand\<close>

lemma selectWinningBrand_first_max:
  "selectWinningBrand scores =
     (let m = max (scores JVC) (max (scores SONY) (scores NEC))
      in if m \<le> 0 then UNKNOWN
         else if scores JVC = m then JVC
         else if scores SONY = m then SONY
         else NEC)"
  by (simp add: selectWinningBrand_def winnerStep_def Let_def max_def)

lemma analyze_scores:
  "m_pulseSpacePairs s \<noteq> [] \<Longrightarrow>
   m_brandScores (analyzeAndDecodeBurst s) = brandScoresOf (m_pulseSpacePairs s)"
  by (simp add: analyzeAndDecodeBurst_def Let_def)

lemma analyze_no_winner:
  "selectWinningBrand (brandScoresOf (m_pulseSpacePairs s)) = UNKNOWN \<Longrightarrow>
   m_decodedSegments (analyzeAndDecodeBurst s) = [] \<and>
   m_finalResultCode (analyzeAndDecodeBurst s) = DecodedIR_default \<and>
   \<not> m_codeResultIsReady (analyzeAndDecodeBurst s)"
  by (simp add: analyzeAndDecodeBurst_def Let_def)

lemma fold_fst_nonneg:
  assumes "\<And>i st. (0::int) \<le> fst st \<Longrightarrow> 0 \<le> fst (f i st)"
  shows "0 \<le> fst st \<Longrightarrow> 0 \<le> fst (fold f is st)"
  by (induction "is" arbitrary: st) (simp_all add: assms)

lemma scoreSonyStep_nonneg: "0 \<le> fst st \<Longrightarrow> 0 \<le> fst (scoreSonyStep pairs i st)"
  by (cases st) (simp add: scoreSonyStep_def Let_def)

lemma scoreJVCStep_nonneg: "0 \<le> fst st \<Longrightarrow> 0 \<le> fst (scoreJVCStep pairs i st)"
  by (cases st) (simp add: scoreJVCStep_def Let_def)

lemma scoreNECStep_nonneg: "0 \<le> fst st \<Longrightarrow> 0 \<le> fst (scoreNECStep pairs i st)"
  by (cases st) (simp add: scoreNECStep_def Let_def)

lemma brandScoresOf_nonneg: "0 \<le> brandScoresOf pairs b"
proof -
  have "0 \<le> scoreSonySIRC12 pairs"
    unfolding scoreSonySIRC12_def
    using fold_fst_nonneg [of "scoreSonyStep pairs" "(0, 0, 0)"] scoreSonyStep_nonneg by simp
  moreover have "0 \<le> scoreJVC pairs"
    unfolding scoreJVC_def
    using fold_fst_nonneg [of "scoreJVCStep pairs" "(0, 0, 0)"] scoreJVCStep_nonneg by simp
  moreover have "0 \<le> scoreNEC pairs"
    unfolding scoreNEC_def
    using fold_fst_nonneg [of "scoreNECStep pairs" "(0, 0, 0)"] scoreNECStep_nonneg by simp
  ultimately show ?thesis
    by (simp add: brandScoresOf_def)
qed

lemma decodeWinningSegment_brand:
  "brand (decodeWinningSegment b dataPairs) = b \<or> brand (decodeWinningSegment b dataPairs) = UNKNOWN"
  by (simp add: decodeWinningSegment_def DecodedIR_default_def split: prod.splits)

lemma decodeNECData_brand: "brand (base (decodeNECData dataPairs)) = NEC"
  by (simp add: decodeNECData_def necFields_def Let_def split: prod.splits)

lemma decodeSegmentStep_brand:
  assumes "\<forall>d\<in>set (decoded w). brand d = winningBrand"
  shows "\<forall>d\<in>set (decoded (decodeSegmentStep winningBrand pairs i w)). brand d = winningBrand"
  using assms decodeWinningSegment_brand [of winningBrand] decodeNECData_brand
  by (auto simp add: decodeSegmentStep_def Let_def)

lemma decodeSegmentsLoop_brand:
  "\<forall>d\<in>set (decoded w). brand d = winningBrand \<Longrightarrow>
   \<forall>d\<in>set (decoded (decodeSegmentsLoop winningBrand pairs i w)). brand d = winningBrand"
proof (induction winningBrand pairs i w rule: decodeSegmentsLoop.induct)
  case (1 winningBrand pairs i w)
  show ?case
  proof (cases "i < length pairs \<and> length (decoded w) < IR_LIB_MAX_DECODED_SEGMENTS")
    case True
    from "1.prems" have "\<forall>d\<in>set (decoded (decodeSegmentStep winningBrand pairs i w)). brand d = winningBrand"
      by (rule decodeSegmentStep_brand)
    with True "1.IH" show ?thesis
      by (subst decodeSegmentsLoop.simps) simp
  next
    case False
    with "1.prems" show ?thesis
      by (subst decodeSegmentsLoop.simps) auto
  qed
qed

lemma countSegment_data_subset:
  "set (map data (countSegment z cs)) \<subseteq> insert (fst z) (set (map data cs))"
proof -
  obtain seg ck where z: "z = (seg, ck)" by (cases z)
  obtain cs' found where cm: "countMatch seg ck cs = (cs', found)"
    by (cases "countMatch seg ck cs")
  from countMatch_data [of seg ck cs] have "map data cs' = map data cs"
    by (simp add: cm)
  then have "set (map data cs') = set (map data cs)"
    by simp
  then show ?thesis
    by (auto simp add: countSegment_def z cm)
qed

lemma fold_countSegment_data_subset:
  "set (map data (fold countSegment zs cs)) \<subseteq> fst ` set zs \<union> set (map data cs)"
proof (induction zs arbitrary: cs)
  case Nil
  show ?case by simp
next
  case (Cons z zs)
  from Cons.IH [of "countSegment z cs"] countSegment_data_subset [of z cs]
  show ?case by auto
qed

lemma determineWinner_member:
  assumes "n \<le> length segments"
  shows "determineWinner segments n cks = DecodedIR_default \<or>
         determineWinner segments n cks \<in> set segments"
proof -
  have "fst ` set (map (\<lambda>i. (segments ! i, cks ! i)) [0..<n]) \<subseteq> set segments"
    using assms by auto
  with fold_countSegment_data_subset [of "map (\<lambda>i. (segments ! i, cks ! i)) [0..<n]" "[]"]
  have "data ` set (countSegments segments n cks) \<subseteq> set segments"
    unfolding countSegments_def by auto
  with pickWinner_member [of "countSegments segments n cks"] show ?thesis
    by (auto simp add: determineWinner_def)
qed

lemma brandScoresOf_Nil: "selectWinningBrand (brandScoresOf []) = UNKNOWN"
  by (simp add: selectWinningBrand_def winnerStep_def brandScoresOf_def
      scoreSonySIRC12_def scoreJVC_def scoreNEC_def)

lemma analyze_uses_winner:
  assumes w: "selectWinningBrand (brandScoresOf (m_pulseSpacePairs t)) \<noteq> UNKNOWN"
  shows "m_decodedSegments (analyzeAndDecodeBurst t) =
           decoded (decodeSegmentsLoop (selectWinningBrand (brandScoresOf (m_pulseSpacePairs t)))
             (m_pulseSpacePairs t) 0
             \<lparr>decoded = [], checksums = [], currentSegmentStartPairIndex = 0,
              dataStartForCurrentSegment =
                (if pulse (m_pulseSpacePairs t ! 0) \<noteq> -1 \<and> space (m_pulseSpacePairs t ! 0) \<noteq> -1 \<and>
                    matchPreamble (pulse (m_pulseSpacePairs t ! 0)) (space (m_pulseSpacePairs t ! 0)) False =
                      selectWinningBrand (brandScoresOf (m_pulseSpacePairs t))
                 then 1 else 0)\<rparr>)"
    and "\<forall>d\<in>set (m_decodedSegments (analyzeAndDecodeBurst t)).
           brand d = selectWinningBrand (brandScoresOf (m_pulseSpacePairs t))"
    and "m_codeResultIsReady (analyzeAndDecodeBurst t) \<longrightarrow>
           brand (m_finalResultCode (analyzeAndDecodeBurst t)) =
             selectWinningBrand (brandScoresOf (m_pulseSpacePairs t))"
proof -
  let ?pairs = "m_pulseSpacePairs t"
  let ?W = "selectWinningBrand (brandScoresOf ?pairs)"
  let ?k = "if pulse (?pairs ! 0) \<noteq> -1 \<and> space (?pairs ! 0) \<noteq> -1 \<and>
                    matchPreamble (pulse (?pairs ! 0)) (space (?pairs ! 0)) False = ?W
                 then 1 else 0 :: nat"
  let ?w = "decodeSegmentsLoop ?W ?pairs 0
             \<lparr>decoded = [], checksums = [], currentSegmentStartPairIndex = 0,
              dataStartForCurrentSegment = ?k\<rparr>"
  from w have ne: "?pairs \<noteq> []"
    using brandScoresOf_Nil by auto
  from w ne show seg: "m_decodedSegments (analyzeAndDecodeBurst t) = decoded ?w"
    by (auto simp add: analyzeAndDecodeBurst_def Let_def)
  have br: "\<forall>d\<in>set (decoded ?w). brand d = ?W"
    by (rule decodeSegmentsLoop_brand) simp
  with seg show "\<forall>d\<in>set (m_decodedSegments (analyzeAndDecodeBurst t)). brand d = ?W"
    by simp
  show "m_codeResultIsReady (analyzeAndDecodeBurst t) \<longrightarrow>
           brand (m_finalResultCode (analyzeAndDecodeBurst t)) = ?W"
  proof
    assume r: "m_codeResultIsReady (analyzeAndDecodeBurst t)"
    with w ne have f: "m_finalResultCode (analyzeAndDecodeBurst t) =
        determineWinner (decoded ?w) (length (decoded ?w)) (checksums ?w)"
      and v: "brand (m_finalResultCode (analyzeAndDecodeBurst t)) \<noteq> UNKNOWN"
      by (auto simp add: analyzeAndDecodeBurst_def Let_def split: if_splits)
    from v have "m_finalResultCode (analyzeAndDecodeBurst t) \<noteq> DecodedIR_default"
      by (auto simp add: DecodedIR_default_def)
    with f determineWinner_member [of "length (decoded ?w)" "decoded ?w" "checksums ?w"]
    have "m_finalResultCode (analyzeAndDecodeBurst t) \<in> set (decoded ?w)"
      by auto
    with br show "brand (m_finalResultCode (analyzeAndDecodeBurst t)) = ?W"
      by blast
  qed
qed

text \<open>
  C1, as the code has it. Every score is at least zero. The winner is the brand with the
  greatest score when that score is not zero, and when several brands share the greatest
  score it is the first of them in the order JVC, SONY, NEC. The burst analysis stores
  the three scores and goes on with that winner: the recorded segments are those of
  the segment loop run with the winner, each carries the winner's brand, and so does a
  reported result. When the greatest score is zero no brand is identified and the burst
  is discarded: no segment is decoded, no vote is taken and no result is produced.
\<close>

theorem winning_brand_selection:
  "0 \<le> brandScoresOf pairs b \<and>
   selectWinningBrand scores =
     (let m = max (scores JVC) (max (scores SONY) (scores NEC))
      in if m \<le> 0 then UNKNOWN
         else if scores JVC = m then JVC
         else if scores SONY = m then SONY
         else NEC) \<and>
   (m_pulseSpacePairs s \<noteq> [] \<longrightarrow>
      m_brandScores (analyzeAndDecodeBurst s) = brandScoresOf (m_pulseSpacePairs s)) \<and>
   (selectWinningBrand (brandScoresOf (m_pulseSpacePairs s)) = UNKNOWN \<longrightarrow>
      m_decodedSegments (analyzeAndDecodeBurst s) = [] \<and>
      m_finalResultCode (analyzeAndDecodeBurst s) = DecodedIR_default \<and>
      \<not> m_codeResultIsReady (analyzeAndDecodeBurst s)) \<and>
   (selectWinningBrand (brandScoresOf (m_pulseSpacePairs t)) \<noteq> UNKNOWN \<longrightarrow>
      m_decodedSegments (analyzeAndDecodeBurst t) =
        decoded (decodeSegmentsLoop (selectWinningBrand (brandScoresOf (m_pulseSpacePairs t)))
          (m_pulseSpacePairs t) 0
          \<lparr>decoded = [], checksums = [], currentSegmentStartPairIndex = 0,
           dataStartForCurrentSegment =
             (if pulse (m_pulseSpacePairs t ! 0) \<noteq> -1 \<and> space (m_pulseSpacePairs t ! 0) \<noteq> -1 \<and>
                 matchPreamble (pulse (m_pulseSpacePairs t ! 0)) (space (m_pulseSpacePairs t ! 0)) False =
                   selectWinningBrand (brandScoresOf (m_pulseSpacePairs t))
              then 1 else 0)\<rparr>) \<and>
      (\<forall>d\<in>set (m_decodedSegments (analyzeAndDecodeBurst t)).
         brand d = selectWinningBrand (brandScoresOf (m_pulseSpacePairs t))) \<and>
      (m_codeResultIsReady (analyzeAndDecodeBurst t) \<longrightarrow>
         brand (m_finalResultCode (analyzeAndDecodeBurst t)) =
           selectWinningBrand (brandScoresOf (m_pulseSpacePairs t))))"
proof (intro conjI impI)
  show "0 \<le> brandScoresOf pairs b"
    by (rule brandScoresOf_nonneg)
  show "selectWinningBrand scores =
     (let m = max (scores JVC) (max (scores SONY) (scores NEC))
      in if m \<le> 0 then UNKNOWN
         else if scores JVC = m then JVC
         else if scores SONY = m then SONY
         else NEC)"
    by (rule selectWinningBrand_first_max)
next
  assume "m_pulseSpacePairs s \<noteq> []"
  then show "m_brandScores (analyzeAndDecodeBurst s) = brandScoresOf (m_pulseSpacePairs s)"
    by (rule analyze_scores)
next
  assume u: "selectWinningBrand (brandScoresOf (m_pulseSpacePairs s)) = UNKNOWN"
  from analyze_no_winner [OF u]
  show "m_decodedSegments (analyzeAndDecodeBurst s) = []"
    and "m_finalResultCode (analyzeAndDecodeBurst s) = DecodedIR_default"
    and "\<not> m_codeResultIsReady (analyzeAndDecodeBurst s)"
    by blast+
next
  assume w: "selectWinningBrand (brandScoresOf (m_pulseSpacePairs t)) \<noteq> UNKNOWN"
  from analyze_uses_winner(1) [OF w]
  show "m_decodedSegments (analyzeAndDecodeBurst t) =
        decoded (decodeSegmentsLoop (selectWinningBrand (brandScoresOf (m_pulseSpacePairs t)))
          (m_pulseSpacePairs t) 0
          \<lparr>decoded = [], checksums = [], currentSegmentStartPairIndex = 0,
           dataStartForCurrentSegment =
             (if pulse (m_pulseSpacePairs t ! 0) \<noteq> -1 \<and> space (m_pulseSpacePairs t ! 0) \<noteq> -1 \<and>
                 matchPreamble (pulse (m_pulseSpacePairs t ! 0)) (space (m_pulseSpacePairs t ! 0)) False =
                   selectWinningBrand (brandScoresOf (m_pulseSpacePairs t))
              then 1 else 0)\<rparr>)" .
  from analyze_uses_winner(2) [OF w]
  show "\<forall>d\<in>set (m_decodedSegments (analyzeAndDecodeBurst t)).
         brand d = selectWinningBrand (brandScoresOf (m_pulseSpacePairs t))" .
  assume "m_codeResultIsReady (analyzeAndDecodeBurst t)"
  with analyze_uses_winner(3) [OF w]
  show "brand (m_finalResultCode (analyzeAndDecodeBurst t)) =
           selectWinningBrand (brandScoresOf (m_pulseSpacePairs t))"
    by blast
qed

theorem winning_brand_selection_witness:
  "m_pulseSpacePairs singlePolled = [\<lparr>pulse = 600, space = 600\<rparr>] \<and>
   m_pulseSpacePairs singlePolled \<noteq> [] \<and>
   brandScoresOf (m_pulseSpacePairs singlePolled) JVC = 0 \<and>
   brandScoresOf (m_pulseSpacePairs singlePolled) SONY = 0 \<and>
   brandScoresOf (m_pulseSpacePairs singlePolled) NEC = 0 \<and>
   selectWinningBrand (brandScoresOf (m_pulseSpacePairs singlePolled)) = UNKNOWN \<and>
   m_brandScores (analyzeAndDecodeBurst singlePolled) = brandScoresOf (m_pulseSpacePairs singlePolled) \<and>
   m_decodedSegments (analyzeAndDecodeBurst singlePolled) = [] \<and>
   m_finalResultCode (analyzeAndDecodeBurst singlePolled) = DecodedIR_default \<and>
   \<not> m_codeResultIsReady (analyzeAndDecodeBurst singlePolled) \<and>
   brandScoresOf (m_pulseSpacePairs necLoaded) JVC = 1 \<and>
   brandScoresOf (m_pulseSpacePairs necLoaded) SONY = 0 \<and>
   brandScoresOf (m_pulseSpacePairs necLoaded) NEC = 2 \<and>
   selectWinningBrand (brandScoresOf (m_pulseSpacePairs necLoaded)) = NEC \<and>
   selectWinningBrand (brandScoresOf (m_pulseSpacePairs necLoaded)) \<noteq> UNKNOWN \<and>
   m_decodedSegments (analyzeAndDecodeBurst necLoaded) =
     decoded (decodeSegmentsLoop NEC (m_pulseSpacePairs necLoaded) 0
       \<lparr>decoded = [], checksums = [], currentSegmentStartPairIndex = 0,
        dataStartForCurrentSegment = 0\<rparr>) \<and>
   m_decodedSegments (analyzeAndDecodeBurst necLoaded) = [\<lparr>brand = NEC, command = 12, address = 0\<rparr>] \<and>
   list_all (\<lambda>d. brand d = NEC) (m_decodedSegments (analyzeAndDecodeBurst necLoaded)) \<and>
   m_codeResultIsReady (analyzeAndDecodeBurst necLoaded) \<and>
   brand (m_finalResultCode (analyzeAndDecodeBurst necLoaded)) = NEC \<and>
   m_finalResultCode (analyzeAndDecodeBurst necLoaded) = \<lparr>brand = NEC, command = 12, address = 0\<rparr>"
proof -
  note w = winning_brand_selection
    [of "m_pulseSpacePairs singlePolled" JVC "brandScoresOf (m_pulseSpacePairs singlePolled)"
      singlePolled necLoaded]
  have p: "m_pulseSpacePairs singlePolled = [\<lparr>pulse = 600, space = 600\<rparr>]"
    by code_simp
  then have n: "m_pulseSpacePairs singlePolled \<noteq> []"
    by simp
  have z1: "brandScoresOf (m_pulseSpacePairs singlePolled) JVC = 0"
    and z2: "brandScoresOf (m_pulseSpacePairs singlePolled) SONY = 0"
    and z3: "brandScoresOf (m_pulseSpacePairs singlePolled) NEC = 0"
    by code_simp+
  from w z1 z2 z3 have u: "selectWinningBrand (brandScoresOf (m_pulseSpacePairs singlePolled)) = UNKNOWN"
    by simp
  from w n have a: "m_brandScores (analyzeAndDecodeBurst singlePolled) =
      brandScoresOf (m_pulseSpacePairs singlePolled)"
    by blast
  from w u have d: "m_decodedSegments (analyzeAndDecodeBurst singlePolled) = []"
    and f: "m_finalResultCode (analyzeAndDecodeBurst singlePolled) = DecodedIR_default"
    and r: "\<not> m_codeResultIsReady (analyzeAndDecodeBurst singlePolled)"
    by blast+
  note v = winning_brand_selection
    [of "m_pulseSpacePairs necLoaded" JVC "brandScoresOf (m_pulseSpacePairs necLoaded)"
      singlePolled necLoaded]
  have s1: "brandScoresOf (m_pulseSpacePairs necLoaded) JVC = 1"
    and s2: "brandScoresOf (m_pulseSpacePairs necLoaded) SONY = 0"
    and s3: "brandScoresOf (m_pulseSpacePairs necLoaded) NEC = 2"
    by code_simp+
  from v s1 s2 s3 have win: "selectWinningBrand (brandScoresOf (m_pulseSpacePairs necLoaded)) = NEC"
    by simp
  then have nu: "selectWinningBrand (brandScoresOf (m_pulseSpacePairs necLoaded)) \<noteq> UNKNOWN"
    by simp
  have p0: "\<not> (pulse (m_pulseSpacePairs necLoaded ! 0) \<noteq> -1 \<and>
      space (m_pulseSpacePairs necLoaded ! 0) \<noteq> -1 \<and>
      matchPreamble (pulse (m_pulseSpacePairs necLoaded ! 0))
        (space (m_pulseSpacePairs necLoaded ! 0)) False = NEC)"
    by code_simp
  from v nu have e: "m_decodedSegments (analyzeAndDecodeBurst necLoaded) =
        decoded (decodeSegmentsLoop (selectWinningBrand (brandScoresOf (m_pulseSpacePairs necLoaded)))
          (m_pulseSpacePairs necLoaded) 0
          \<lparr>decoded = [], checksums = [], currentSegmentStartPairIndex = 0,
           dataStartForCurrentSegment =
             (if pulse (m_pulseSpacePairs necLoaded ! 0) \<noteq> -1 \<and>
                 space (m_pulseSpacePairs necLoaded ! 0) \<noteq> -1 \<and>
                 matchPreamble (pulse (m_pulseSpacePairs necLoaded ! 0))
                   (space (m_pulseSpacePairs necLoaded ! 0)) False =
                   selectWinningBrand (brandScoresOf (m_pulseSpacePairs necLoaded))
              then 1 else 0)\<rparr>)"
    by blast
  have lp: "m_decodedSegments (analyzeAndDecodeBurst necLoaded) =
     decoded (decodeSegmentsLoop NEC (m_pulseSpacePairs necLoaded) 0
       \<lparr>decoded = [], checksums = [], currentSegmentStartPairIndex = 0,
        dataStartForCurrentSegment = 0\<rparr>)"
    using e unfolding win if_not_P [OF p0] .
  have sg: "m_decodedSegments (analyzeAndDecodeBurst necLoaded) =
      [\<lparr>brand = NEC, command = 12, address = 0\<rparr>]"
    by code_simp
  from v nu have "\<forall>d\<in>set (m_decodedSegments (analyzeAndDecodeBurst necLoaded)).
      brand d = selectWinningBrand (brandScoresOf (m_pulseSpacePairs necLoaded))"
    by blast
  then have la: "list_all (\<lambda>d. brand d = NEC) (m_decodedSegments (analyzeAndDecodeBurst necLoaded))"
    unfolding win list_all_iff .
  have rd: "m_codeResultIsReady (analyzeAndDecodeBurst necLoaded)"
    by code_simp
  from v nu rd have "brand (m_finalResultCode (analyzeAndDecodeBurst necLoaded)) =
      selectWinningBrand (brandScoresOf (m_pulseSpacePairs necLoaded))"
    by blast
  then have fb: "brand (m_finalResultCode (analyzeAndDecodeBurst necLoaded)) = NEC"
    unfolding win .
  have fr: "m_finalResultCode (analyzeAndDecodeBurst necLoaded) =
      \<lparr>brand = NEC, command = 12, address = 0\<rparr>"
    by code_simp
  from p n z1 z2 z3 u a d f r s1 s2 s3 win nu lp sg la rd fb fr show ?thesis
    by (intro conjI)
qed

text \<open>
  The claim as written fails on the burst of sixteen equal pulses: JVC and NEC share the
  greatest score 1, and the burst is not discarded but decoded as JVC, voted on and
  reported.
\<close>

theorem tie_not_discarded:
  "reachable tiePolled \<and>
   m_brandScores tiePolled JVC = 1 \<and> m_brandScores tiePolled SONY = 0 \<and>
   m_brandScores tiePolled NEC = 1 \<and>
   selectWinningBrand (m_brandScores tiePolled) = JVC \<and>
   m_decodedSegments tiePolled = [\<lparr>brand = JVC, command = 0, address = 0\<rparr>] \<and>
   m_finalResultCode tiePolled = \<lparr>brand = JVC, command = 0, address = 0\<rparr> \<and>
   m_codeResultIsReady tiePolled"
proof -
  have "m_brandScores tiePolled JVC = 1 \<and> m_brandScores tiePolled SONY = 0 \<and>
   m_brandScores tiePolled NEC = 1 \<and>
   selectWinningBrand (m_brandScores tiePolled) = JVC \<and>
   m_decodedSegments tiePolled = [\<lparr>brand = JVC, command = 0, address = 0\<rparr>] \<and>
   m_finalResultCode tiePolled = \<lparr>brand = JVC, command = 0, address = 0\<rparr> \<and>
   m_codeResultIsReady tiePolled"
    by code_simp
  with tiePolled_reachable show ?thesis
    by (rule conjI)
qed

subsection \<open>The vote\<close>

text \<open>
  The groups that the vote builds are, in the order of their first segment, the distinct
  names of the segments that take part, each with the number of segments of that name,
  as long as no more than \<open>IR_LIB_MAX_DECODED_SEGMENTS\<close> distinct names occur.
\<close>

lemma set_firstOccurrences [simp]: "set (firstOccurrences xs) = set xs"
  by (induction xs) auto

lemma distinct_firstOccurrences [simp]: "distinct (firstOccurrences xs)"
  by (induction xs) (auto simp add: distinct_removeAll)

lemma firstOccurrences_snoc:
  "firstOccurrences (xs @ [x]) =
     (if x \<in> set xs then firstOccurrences xs else firstOccurrences xs @ [x])"
  by (induction xs) auto

lemma wellformed_groupKey: "snd (groupKey z) \<longrightarrow> brand (fst (groupKey z)) = NEC"
  by (simp add: groupKey_def)

lemma segmentMatches_groupFor:
  assumes "snd k \<longrightarrow> brand (fst k) = NEC"
  shows "segmentMatches seg ck (groupFor ks k) \<longleftrightarrow> groupKey (seg, ck) = k"
  using assms
  by (cases k) (auto simp add: segmentMatches_def groupFor_def groupKey_def Let_def)

lemma countMatch_groups:
  assumes "distinct L" and "\<forall>k\<in>set L. snd k \<longrightarrow> brand (fst k) = NEC"
  shows "countMatch seg ck (map (groupFor ks) L) =
           (map (\<lambda>k. if k = groupKey (seg, ck)
                      then (groupFor ks k)\<lparr>count := count (groupFor ks k) + 1\<rparr>
                      else groupFor ks k) L,
            groupKey (seg, ck) \<in> set L)"
  using assms
proof (induction L)
  case Nil
  show ?case by simp
next
  case (Cons k L)
  show ?case
  proof (cases "k = groupKey (seg, ck)")
    case True
    with Cons.prems have m: "segmentMatches seg ck (groupFor ks k)"
      by (simp add: segmentMatches_groupFor)
    from True Cons.prems have "groupKey (seg, ck) \<notin> set L"
      by auto
    then have "map (\<lambda>k. if k = groupKey (seg, ck)
                      then (groupFor ks k)\<lparr>count := count (groupFor ks k) + 1\<rparr>
                      else groupFor ks k) L = map (groupFor ks) L"
      by (intro map_cong) auto
    with m True show ?thesis by simp
  next
    case False
    with Cons.prems have m: "\<not> segmentMatches seg ck (groupFor ks k)"
      by (auto simp add: segmentMatches_groupFor)
    from Cons have "countMatch seg ck (map (groupFor ks) L) =
           (map (\<lambda>k. if k = groupKey (seg, ck)
                      then (groupFor ks k)\<lparr>count := count (groupFor ks k) + 1\<rparr>
                      else groupFor ks k) L,
            groupKey (seg, ck) \<in> set L)"
      by simp
    with m False show ?thesis by auto
  qed
qed

lemma groupFor_snoc:
  "groupFor (ks @ [k']) k =
     (if k = k' then (groupFor ks k)\<lparr>count := count (groupFor ks k) + 1\<rparr> else groupFor ks k)"
  by (simp add: groupFor_def)

lemma countSegment_groups:
  assumes v: "validSegment seg"
    and len: "length (firstOccurrences (ks @ [groupKey (seg, ck)])) \<le> IR_LIB_MAX_DECODED_SEGMENTS"
    and wf: "\<forall>k\<in>set ks. snd k \<longrightarrow> brand (fst k) = NEC"
  shows "countSegment (seg, ck) (map (groupFor ks) (firstOccurrences ks)) =
           map (groupFor (ks @ [groupKey (seg, ck)])) (firstOccurrences (ks @ [groupKey (seg, ck)]))"
proof -
  let ?k = "groupKey (seg, ck)"
  have cm: "countMatch seg ck (map (groupFor ks) (firstOccurrences ks)) =
           (map (groupFor (ks @ [?k])) (firstOccurrences ks), ?k \<in> set ks)"
    using countMatch_groups [of "firstOccurrences ks" seg ck ks] wf
    by (simp add: groupFor_snoc cong: map_cong)
  show ?thesis
  proof (cases "?k \<in> set ks")
    case True
    with v cm show ?thesis
      by (simp add: countSegment_def validSegment_def firstOccurrences_snoc)
  next
    case False
    with len have l: "length (firstOccurrences ks) < IR_LIB_MAX_DECODED_SEGMENTS"
      by (simp add: firstOccurrences_snoc)
    have new: "groupFor (ks @ [?k]) ?k =
        \<lparr>data = seg, count = 1, checksumValidForNEC = (if brand seg = NEC then ck else False)\<rparr>"
      using False by (simp add: groupFor_def groupKey_def count_list_0_iff)
    have old: "map (groupFor (ks @ [?k])) (firstOccurrences ks) = map (groupFor ks) (firstOccurrences ks)"
      using False by (intro map_cong) (auto simp add: groupFor_snoc)
    from v cm False l new old show ?thesis
      by (simp add: countSegment_def validSegment_def firstOccurrences_snoc)
  qed
qed

lemma countSegment_invalid: "\<not> validSegment seg \<Longrightarrow> countSegment (seg, ck) cs = cs"
  by (auto simp add: countSegment_def validSegment_def)

lemma fold_countSegment_groups:
  "length (firstOccurrences (votingKeys zs)) \<le> IR_LIB_MAX_DECODED_SEGMENTS \<Longrightarrow>
   fold countSegment zs [] = map (groupFor (votingKeys zs)) (firstOccurrences (votingKeys zs))"
proof (induction zs rule: rev_induct)
  case Nil
  show ?case by (simp add: votingKeys_def)
next
  case (snoc z zs)
  obtain seg ck where z: "z = (seg, ck)" by (cases z)
  show ?case
  proof (cases "validSegment seg")
    case True
    then have vk: "votingKeys (zs @ [z]) = votingKeys zs @ [groupKey (seg, ck)]"
      by (simp add: votingKeys_def z)
    with snoc.prems have "length (firstOccurrences (votingKeys zs)) \<le> IR_LIB_MAX_DECODED_SEGMENTS"
      by (simp add: firstOccurrences_snoc split: if_splits)
    then have ih: "fold countSegment zs [] = map (groupFor (votingKeys zs)) (firstOccurrences (votingKeys zs))"
      by (rule snoc.IH)
    have wf: "\<forall>k\<in>set (votingKeys zs). snd k \<longrightarrow> brand (fst k) = NEC"
      by (auto simp add: votingKeys_def groupKey_def)
    from countSegment_groups [OF True _ wf, of ck] snoc.prems vk ih show ?thesis
      by (simp add: z)
  next
    case False
    then have vk: "votingKeys (zs @ [z]) = votingKeys zs"
      by (simp add: votingKeys_def z)
    with snoc have "fold countSegment zs [] = map (groupFor (votingKeys zs)) (firstOccurrences (votingKeys zs))"
      by simp
    with False vk show ?thesis
      by (simp add: z countSegment_invalid)
  qed
qed

lemma length_firstOccurrences_le: "length (firstOccurrences xs) \<le> length xs"
proof -
  have "card (set (firstOccurrences xs)) = length (firstOccurrences xs)"
    by (rule distinct_card) simp
  moreover have "card (set xs) \<le> length xs"
    by (rule card_length)
  ultimately show ?thesis by simp
qed

lemma first_index:
  assumes "k \<in> set xs"
  shows "\<exists>w<length xs. xs ! w = k \<and> (\<forall>j<w. xs ! j \<noteq> k)"
proof -
  define w where "w = (LEAST i. i < length xs \<and> xs ! i = k)"
  from assms obtain i where "i < length xs \<and> xs ! i = k"
    by (auto simp add: in_set_conv_nth)
  then have 1: "w < length xs \<and> xs ! w = k"
    unfolding w_def by (rule LeastI)
  have "xs ! j \<noteq> k" if "j < w" for j
  proof
    assume "xs ! j = k"
    with that 1 have "j < length xs \<and> xs ! j = k"
      by simp
    then have "w \<le> j"
      unfolding w_def by (rule Least_le)
    with that show False by simp
  qed
  with 1 show ?thesis by blast
qed

lemma firstOccurrences_order:
  "p < length (firstOccurrences xs) \<Longrightarrow> j < length xs \<Longrightarrow>
   \<forall>i\<le>j. xs ! i \<noteq> firstOccurrences xs ! p \<Longrightarrow>
   \<exists>q<p. firstOccurrences xs ! q = xs ! j"
proof (induction xs arbitrary: p j rule: rev_induct)
  case Nil
  then show ?case by simp
next
  case (snoc x xs)
  let ?F = "firstOccurrences xs"
  let ?k = "firstOccurrences (xs @ [x]) ! p"
  have before: "xs ! i \<noteq> ?k" if "i \<le> j" "i < length xs" for i
    using snoc.prems(3) that by (auto simp add: nth_append dest!: spec [of _ i])
  show ?case
  proof (cases "x \<in> set xs")
    case True
    then have F: "firstOccurrences (xs @ [x]) = ?F"
      by (simp add: firstOccurrences_snoc)
    with snoc.prems(1) have p: "p < length ?F"
      by simp
    then have "?F ! p \<in> set xs"
      using nth_mem [of p ?F] by simp
    then obtain i where i: "i < length xs" "xs ! i = ?F ! p"
      by (auto simp add: in_set_conv_nth)
    have jl: "j < length xs"
    proof (rule ccontr)
      assume "\<not> j < length xs"
      with i have "i \<le> j" by simp
      from before [OF this i(1)] i(2) F show False by simp
    qed
    have "\<forall>i\<le>j. xs ! i \<noteq> ?F ! p"
      using before jl F by auto
    from snoc.IH [OF p jl this] obtain q where q: "q < p" "?F ! q = xs ! j"
      by blast
    from jl have "(xs @ [x]) ! j = xs ! j"
      by (simp add: nth_append)
    with q F show ?thesis
      by (intro exI [of _ q]) simp
  next
    case False
    then have F: "firstOccurrences (xs @ [x]) = ?F @ [x]"
      by (simp add: firstOccurrences_snoc)
    show ?thesis
    proof (cases "p = length ?F")
      case True
      then have k: "?k = x"
        by (simp add: F)
      have jl: "j < length xs"
      proof (rule ccontr)
        assume "\<not> j < length xs"
        with snoc.prems(2) have "j = length xs" by simp
        with snoc.prems(3) k show False
          by (auto dest!: spec [of _ j])
      qed
      then have "xs ! j \<in> set ?F"
        by simp
      then obtain q where q: "q < length ?F" "?F ! q = xs ! j"
        by (metis in_set_conv_nth)
      from jl have "(xs @ [x]) ! j = xs ! j"
        by (simp add: nth_append)
      moreover from q have "(?F @ [x]) ! q = ?F ! q"
        by (simp add: nth_append)
      ultimately show ?thesis
        using q True F by (intro exI [of _ q]) simp
    next
      case False
      with snoc.prems(1) F have p: "p < length ?F"
        by simp
      then have kF: "?k = ?F ! p"
        by (simp add: F nth_append)
      from p have "?F ! p \<in> set xs"
        using nth_mem [of p ?F] by simp
      then obtain i where i: "i < length xs" "xs ! i = ?F ! p"
        by (auto simp add: in_set_conv_nth)
      have jl: "j < length xs"
      proof (rule ccontr)
        assume "\<not> j < length xs"
        with i have "i \<le> j" by simp
        from before [OF this i(1)] i(2) kF show False by simp
      qed
      have "\<forall>i\<le>j. xs ! i \<noteq> ?F ! p"
        using before jl kF by auto
      from snoc.IH [OF p jl this] obtain q where q: "q < p" "?F ! q = xs ! j"
        by blast
      from jl have "(xs @ [x]) ! j = xs ! j"
        by (simp add: nth_append)
      moreover from q p have "(?F @ [x]) ! q = ?F ! q"
        by (simp add: nth_append)
      ultimately show ?thesis
        using q F by (intro exI [of _ q]) simp
    qed
  qed
qed

lemma pickWinner_fold_char:
  assumes "\<forall>c\<in>set cs. 0 < count c"
  shows "n \<le> length cs \<Longrightarrow> 0 < n \<Longrightarrow>
         fold (pickWinnerStep cs) [0..<n] (0, -1) = (m, w) \<Longrightarrow>
         0 \<le> w \<and> nat w < n \<and> count (cs ! nat w) = m \<and>
         (\<forall>j<n. count (cs ! j) \<le> m) \<and> (\<forall>j<nat w. count (cs ! j) < m)"
proof (induction n arbitrary: m w)
  case 0
  then show ?case by simp
next
  case (Suc n)
  obtain m' w' where f: "fold (pickWinnerStep cs) [0..<n] (0, -1) = (m', w')"
    by (cases "fold (pickWinnerStep cs) [0..<n] (0, -1)")
  with Suc.prems(3) have g: "pickWinnerStep cs n (m', w') = (m, w)"
    by simp
  from Suc.prems(1) have "cs ! n \<in> set cs"
    by simp
  with assms have pos: "0 < count (cs ! n)"
    by blast
  show ?case
  proof (cases "n = 0")
    case True
    with f have "m' = 0" "w' = -1"
      by simp_all
    with g True pos have "m = count (cs ! 0)" "w = 0"
      by (simp_all add: pickWinnerStep_def)
    with True show ?thesis
      by simp
  next
    case False
    with Suc.prems(1) have "n \<le> length cs" "0 < n"
      by simp_all
    from Suc.IH [OF this f]
    have ih: "0 \<le> w'" "nat w' < n" "count (cs ! nat w') = m'"
      "\<forall>j<n. count (cs ! j) \<le> m'" "\<forall>j<nat w'. count (cs ! j) < m'"
      by blast+
    show ?thesis
    proof (cases "count (cs ! n) > m'")
      case True
      with g have mw: "m = count (cs ! n)" "w = int n"
        by (simp_all add: pickWinnerStep_def)
      have "count (cs ! j) \<le> m" if "j < Suc n" for j
      proof (cases "j = n")
        case True
        with mw show ?thesis by simp
      next
        case False
        with that have "j < n" by simp
        with ih(4) have "count (cs ! j) \<le> m'" by blast
        with True mw show ?thesis by simp
      qed
      moreover have "count (cs ! j) < m" if "j < nat w" for j
      proof -
        from that mw have "j < n" by simp
        with ih(4) have "count (cs ! j) \<le> m'" by blast
        with True mw show ?thesis by simp
      qed
      ultimately show ?thesis
        using mw by simp
    next
      case False
      with g have mw: "m = m'" "w = w'"
        by (simp_all add: pickWinnerStep_def)
      have "count (cs ! j) \<le> m" if "j < Suc n" for j
      proof (cases "j = n")
        case True
        with False mw show ?thesis by simp
      next
        case False
        with that have "j < n" by simp
        with ih(4) mw show ?thesis by blast
      qed
      with ih mw show ?thesis
        by simp
    qed
  qed
qed

lemma pickWinner_char:
  assumes "cs \<noteq> []" and "\<forall>c\<in>set cs. 0 < count c"
  shows "\<exists>p<length cs. pickWinner cs = data (cs ! p) \<and>
           (\<forall>j<length cs. count (cs ! j) \<le> count (cs ! p)) \<and>
           (\<forall>j<p. count (cs ! j) < count (cs ! p))"
proof -
  obtain m w where f: "fold (pickWinnerStep cs) [0..<length cs] (0, -1) = (m, w)"
    by (cases "fold (pickWinnerStep cs) [0..<length cs] (0, -1)")
  from assms(1) have "0 < length cs"
    by simp
  from pickWinner_fold_char [OF assms(2) le_refl this f]
  have c: "0 \<le> w" "nat w < length cs" "count (cs ! nat w) = m"
    "\<forall>j<length cs. count (cs ! j) \<le> m" "\<forall>j<nat w. count (cs ! j) < m"
    by blast+
  from c(1,2) have "pickWinner cs = data (cs ! nat w)"
    by (auto simp add: pickWinner_def f)
  with c show ?thesis
    by (intro exI [of _ "nat w"]) simp
qed

lemma sameGroup_groupKey: "sameGroup a b \<longleftrightarrow> groupKey a = groupKey b"
  by (cases a; cases b) (auto simp add: sameGroup_def groupKey_def)

lemma length_votingKeys_le: "length (votingKeys zs) \<le> length zs"
  by (simp add: votingKeys_def)

lemma countSegments_groups:
  assumes "n \<le> IR_LIB_MAX_DECODED_SEGMENTS"
  shows "countSegments segments n cks =
           map (groupFor (votingKeys (map (\<lambda>i. (segments ! i, cks ! i)) [0..<n])))
             (firstOccurrences (votingKeys (map (\<lambda>i. (segments ! i, cks ! i)) [0..<n])))"
proof -
  let ?zs = "map (\<lambda>i. (segments ! i, cks ! i)) [0..<n]"
  have "length (firstOccurrences (votingKeys ?zs)) \<le> length (votingKeys ?zs)"
    by (rule length_firstOccurrences_le)
  also have "\<dots> \<le> length ?zs"
    by (rule length_votingKeys_le)
  also have "\<dots> \<le> IR_LIB_MAX_DECODED_SEGMENTS"
    using assms by simp
  finally show ?thesis
    unfolding countSegments_def by (rule fold_countSegment_groups)
qed

lemma occurrences_count_list:
  "occurrences segments n cks i =
     count_list (map (\<lambda>j. groupKey (segments ! j, cks ! j)) [0..<n]) (groupKey (segments ! i, cks ! i))"
proof -
  have "count_list (map (\<lambda>j. groupKey (segments ! j, cks ! j)) [0..<n]) (groupKey (segments ! i, cks ! i)) =
        length (filter ((=) (groupKey (segments ! i, cks ! i)))
                  (map (\<lambda>j. groupKey (segments ! j, cks ! j)) [0..<n]))"
    by (rule count_list_eq_length_filter)
  also have "\<dots> = length (filter (\<lambda>j. groupKey (segments ! i, cks ! i) = groupKey (segments ! j, cks ! j)) [0..<n])"
    by (simp add: filter_map comp_def)
  also have "\<dots> = occurrences segments n cks i"
    unfolding occurrences_def sameGroup_groupKey ..
  finally show ?thesis by simp
qed

lemma determineWinner_first_majority:
  assumes n: "0 < n" "n \<le> IR_LIB_MAX_DECODED_SEGMENTS"
    and valid: "\<forall>i<n. validSegment (segments ! i)"
  shows "\<exists>w<n. determineWinner segments n cks = segments ! w \<and>
           (\<forall>j<n. occurrences segments n cks j \<le> occurrences segments n cks w) \<and>
           (\<forall>j<w. occurrences segments n cks j < occurrences segments n cks w)"
proof -
  define zs where "zs = map (\<lambda>i. (segments ! i, cks ! i)) [0..<n]"
  define ks where "ks = map (\<lambda>j. groupKey (segments ! j, cks ! j)) [0..<n]"
  define F where "F = firstOccurrences ks"
  have "filter (\<lambda>z. validSegment (fst z)) zs = zs"
    using valid by (auto simp add: zs_def filter_id_conv)
  then have vk: "votingKeys zs = ks"
    by (simp add: votingKeys_def zs_def ks_def)
  have len: "length ks = n" and nth: "\<And>i. i < n \<Longrightarrow> ks ! i = groupKey (segments ! i, cks ! i)"
    by (simp_all add: ks_def)
  have occ: "\<And>i. i < n \<Longrightarrow> occurrences segments n cks i = count_list ks (ks ! i)"
    by (simp add: occurrences_count_list nth) (simp add: ks_def)
  have setF: "set F = set ks" and lenF: "F \<noteq> []"
    using n(1) len by (auto simp add: F_def simp flip: set_empty)
  have cs: "countSegments segments n cks = map (groupFor ks) F"
    using countSegments_groups [OF n(2), of segments cks] vk by (simp add: zs_def F_def)
  have "count_list ks k \<noteq> 0" if "k \<in> set ks" for k
    using that by (simp add: count_list_0_iff)
  then have pos: "\<forall>c\<in>set (map (groupFor ks) F). 0 < count c"
    using setF by (auto simp add: groupFor_def)
  from pickWinner_char [OF _ pos] lenF
  obtain p where p: "p < length F"
    and win: "pickWinner (map (groupFor ks) F) = data (map (groupFor ks) F ! p)"
    and mx: "\<forall>j<length F. count (map (groupFor ks) F ! j) \<le> count (map (groupFor ks) F ! p)"
    and fst: "\<forall>j<p. count (map (groupFor ks) F ! j) < count (map (groupFor ks) F ! p)"
    by auto
  from p have mx': "\<And>j. j < length F \<Longrightarrow> count_list ks (F ! j) \<le> count_list ks (F ! p)"
    using mx by (auto simp add: groupFor_def)
  from p have fst': "\<And>j. j < p \<Longrightarrow> count_list ks (F ! j) < count_list ks (F ! p)"
    using fst by (auto simp add: groupFor_def)
  from p setF have "F ! p \<in> set ks"
    using nth_mem [of p F] by simp
  from first_index [OF this] obtain w
    where w: "w < length ks" "ks ! w = F ! p" "\<forall>j<w. ks ! j \<noteq> F ! p"
    by blast
  from w(1) len have wn: "w < n"
    by simp
  have "determineWinner segments n cks = data (groupFor ks (F ! p))"
    using n(1) p win by (simp add: determineWinner_def cs)
  also have "\<dots> = fst (ks ! w)"
    by (simp add: groupFor_def w(2))
  also have "\<dots> = segments ! w"
    using wn by (simp add: nth groupKey_def)
  finally have res: "determineWinner segments n cks = segments ! w" .
  have le: "occurrences segments n cks j \<le> occurrences segments n cks w" if "j < n" for j
  proof -
    from that len setF have "ks ! j \<in> set F"
      using nth_mem [of j ks] by simp
    then obtain q where "q < length F" "F ! q = ks ! j"
      by (metis in_set_conv_nth)
    with mx' [of q] show ?thesis
      using that wn by (simp add: occ w(2))
  qed
  have lt: "occurrences segments n cks j < occurrences segments n cks w" if "j < w" for j
  proof -
    from that wn have jn: "j < n" by simp
    have "\<forall>i\<le>j. ks ! i \<noteq> firstOccurrences ks ! p"
      using w(3) that by (auto simp add: F_def)
    from firstOccurrences_order [OF _ _ this] p jn len
    obtain q where "q < p" "F ! q = ks ! j"
      by (auto simp add: F_def)
    with fst' [of q] show ?thesis
      using jn wn by (simp add: occ w(2))
  qed
  from wn res le lt show ?thesis
    by blast
qed


lemma determineWinner_AAB:
  assumes "validSegment A"
  shows "determineWinner [A, A, B] 3 [c1, c2, c3] = A"
proof -
  define ks where "ks = votingKeys [(A, c1), (A, c2), (B, c3)]"
  define F where "F = firstOccurrences ks"
  have u: "[0..<3] = [0, 1, 2]"
    by code_simp
  have zs: "map (\<lambda>i. ([A, A, B] ! i, [c1, c2, c3] ! i)) [0..<3] = [(A, c1), (A, c2), (B, c3)]"
    by (simp add: u)
  have cs: "countSegments [A, A, B] 3 [c1, c2, c3] = map (groupFor ks) F"
    using countSegments_groups [of 3 "[A, A, B]" "[c1, c2, c3]"]
    unfolding zs by (simp add: IR_LIB_MAX_DECODED_SEGMENTS_def ks_def F_def)
  have ks_eq: "ks = groupKey (A, c1) # groupKey (A, c2) # (if validSegment B then [groupKey (B, c3)] else [])"
    using assms by (simp add: ks_def votingKeys_def)
  have F0: "F \<noteq> []" "F ! 0 = groupKey (A, c1)"
    by (simp_all add: F_def ks_eq)
  have setF: "set F = set ks"
    by (simp add: F_def)
  have "count_list ks k \<noteq> 0" if "k \<in> set ks" for k
    using that by (simp add: count_list_0_iff)
  then have pos: "\<forall>c\<in>set (map (groupFor ks) F). 0 < count c"
    using setF by (auto simp add: groupFor_def)
  from pickWinner_char [OF _ pos] F0(1)
  obtain p where p: "p < length F"
    and win: "pickWinner (map (groupFor ks) F) = data (map (groupFor ks) F ! p)"
    and first: "\<forall>j<p. count (map (groupFor ks) F ! j) < count (map (groupFor ks) F ! p)"
    by auto
  from p win have res: "determineWinner [A, A, B] 3 [c1, c2, c3] = fst (F ! p)"
    by (simp add: determineWinner_def cs groupFor_def)
  have "fst (F ! p) = A"
  proof (rule ccontr)
    assume neq: "fst (F ! p) \<noteq> A"
    from p setF have "F ! p \<in> set ks"
      using nth_mem [of p F] by simp
    with neq have kB: "F ! p = groupKey (B, c3)" "validSegment B"
      by (auto simp add: ks_eq groupKey_def split: if_splits)
    with neq have "B \<noteq> A"
      by (simp add: groupKey_def)
    then have one: "count_list ks (F ! p) = 1"
      using kB by (simp add: ks_eq groupKey_def)
    have "p \<noteq> 0"
    proof
      assume "p = 0"
      with F0(2) have "fst (F ! p) = A"
        by (simp add: groupKey_def)
      with neq show False ..
    qed
    with first p have "count_list ks (F ! 0) < count_list ks (F ! p)"
      by (auto simp add: groupFor_def)
    with one have "count_list ks (groupKey (A, c1)) = 0"
      by (simp add: F0(2))
    then show False
      by (simp add: ks_eq)
  qed
  with res show ?thesis
    by simp
qed

lemma countSegments_pair:
  assumes "validSegment a"
  shows "countSegments [a, a] 2 [c1, c2] =
           (if brand a = NEC \<and> c1 \<noteq> c2
            then [\<lparr>data = a, count = 1, checksumValidForNEC = c1\<rparr>,
                  \<lparr>data = a, count = 1, checksumValidForNEC = c2\<rparr>]
            else [\<lparr>data = a, count = 2, checksumValidForNEC = (brand a = NEC \<and> c1)\<rparr>])"
proof -
  have u: "[0..<2] = [0, 1]"
    by code_simp
  have 1: "countSegment (a, c1) [] =
             [\<lparr>data = a, count = 1, checksumValidForNEC = (brand a = NEC \<and> c1)\<rparr>]"
    using assms by (simp add: countSegment_def validSegment_def IR_LIB_MAX_DECODED_SEGMENTS_def)
  have 2: "countSegment (a, c2) [\<lparr>data = a, count = 1, checksumValidForNEC = (brand a = NEC \<and> c1)\<rparr>] =
           (if brand a = NEC \<and> c1 \<noteq> c2
            then [\<lparr>data = a, count = 1, checksumValidForNEC = c1\<rparr>,
                  \<lparr>data = a, count = 1, checksumValidForNEC = c2\<rparr>]
            else [\<lparr>data = a, count = 2, checksumValidForNEC = (brand a = NEC \<and> c1)\<rparr>])"
    using assms
    by (auto simp add: countSegment_def validSegment_def segmentMatches_def
        IR_LIB_MAX_DECODED_SEGMENTS_def)
  show ?thesis
    unfolding countSegments_def u by (simp add: 1 2)
qed

lemma countMatch_ignores_checksum:
  "brand seg \<noteq> NEC \<Longrightarrow> countMatch seg c cs = countMatch seg c' cs"
  by (induction cs) (simp_all add: segmentMatches_def)

lemma countSegment_ignores_checksum:
  "brand seg \<noteq> NEC \<Longrightarrow> countSegment (seg, c) cs = countSegment (seg, c') cs"
  using countMatch_ignores_checksum [of seg c cs c'] by (simp add: countSegment_def)

lemma countSegments_ignore_checksum:
  assumes "\<forall>i<n. brand (segments ! i) \<noteq> NEC"
  shows "countSegments segments n cks = countSegments segments n cks'"
proof -
  have "fold countSegment (map (\<lambda>i. (segments ! i, cks ! i)) is) cs =
        fold countSegment (map (\<lambda>i. (segments ! i, cks' ! i)) is) cs"
    if "\<forall>i\<in>set is. brand (segments ! i) \<noteq> NEC" for "is" cs
    using that
  proof (induction "is" arbitrary: cs)
    case Nil
    show ?case by simp
  next
    case (Cons i "is")
    then have "countSegment (segments ! i, cks ! i) cs = countSegment (segments ! i, cks' ! i) cs"
      by (intro countSegment_ignores_checksum) simp
    with Cons show ?case
      by simp
  qed
  from this [of "[0..<n]" "[]"] assms show ?thesis
    by (simp add: countSegments_def)
qed

lemma count_votingKeys:
  assumes "validSegment (fst z)"
  shows "count_list (votingKeys zs) (groupKey z) = length (filter (\<lambda>y. sameGroup z y) zs)"
proof -
  have "count_list (votingKeys zs) (groupKey z) =
        length (filter ((=) (groupKey z)) (map groupKey (filter (\<lambda>y. validSegment (fst y)) zs)))"
    unfolding votingKeys_def by (rule count_list_eq_length_filter)
  also have "\<dots> = length (filter (\<lambda>y. validSegment (fst y) \<and> groupKey z = groupKey y) zs)"
    by (simp add: filter_map comp_def conj_commute)
  also have "(\<lambda>y. validSegment (fst y) \<and> groupKey z = groupKey y) = (\<lambda>y. sameGroup z y)"
    using assms by (auto simp add: sameGroup_groupKey groupKey_def fun_eq_iff)
  finally show ?thesis .
qed

lemma nec_groups_kept_apart:
  assumes n: "n \<le> IR_LIB_MAX_DECODED_SEGMENTS" and ij: "i < n" "j < n"
    and nec: "brand (segments ! i) = NEC" "command (segments ! i) \<noteq> -1"
    and same: "segments ! j = segments ! i" and opp: "cks ! i \<noteq> cks ! j"
  shows "\<exists>g h. g \<in> set (countSegments segments n cks) \<and> h \<in> set (countSegments segments n cks) \<and>
           g \<noteq> h \<and> data g = segments ! i \<and> data h = segments ! i \<and>
           checksumValidForNEC g = cks ! i \<and> checksumValidForNEC h = cks ! j \<and>
           count g = int (occurrences segments n cks i) \<and>
           count h = int (occurrences segments n cks j)"
proof -
  define zs where "zs = map (\<lambda>i. (segments ! i, cks ! i)) [0..<n]"
  define ks where "ks = votingKeys zs"
  have cs: "countSegments segments n cks = map (groupFor ks) (firstOccurrences ks)"
    using countSegments_groups [OF n] by (simp add: ks_def zs_def)
  have v: "validSegment (segments ! i)" "validSegment (segments ! j)"
    using nec same by (simp_all add: validSegment_def)
  have zi: "zs ! i = (segments ! i, cks ! i)" and zj: "zs ! j = (segments ! j, cks ! j)"
    using ij by (simp_all add: zs_def)
  have mem: "groupKey (zs ! i) \<in> set ks" "groupKey (zs ! j) \<in> set ks"
    using ij v zi zj by (auto simp add: ks_def votingKeys_def zs_def)
  have occ: "count_list ks (groupKey (zs ! k)) = occurrences segments n cks k"
    if "k < n" "validSegment (segments ! k)" for k
  proof -
    from that have "count_list ks (groupKey (zs ! k)) = length (filter (\<lambda>y. sameGroup (zs ! k) y) zs)"
      unfolding ks_def by (intro count_votingKeys) (simp add: zs_def)
    also have "\<dots> = occurrences segments n cks k"
      using that(1) by (simp add: zs_def occurrences_def filter_map comp_def)
    finally show ?thesis .
  qed
  let ?g = "groupFor ks (groupKey (zs ! i))"
  let ?h = "groupFor ks (groupKey (zs ! j))"
  have "?g \<in> set (countSegments segments n cks)" "?h \<in> set (countSegments segments n cks)"
    using mem by (simp_all add: cs)
  moreover have "?g \<noteq> ?h"
    using nec same opp by (auto simp add: groupFor_def groupKey_def zi zj)
  moreover have "data ?g = segments ! i" "data ?h = segments ! i"
    using same by (simp_all add: groupFor_def groupKey_def zi zj)
  moreover have "checksumValidForNEC ?g = cks ! i" "checksumValidForNEC ?h = cks ! j"
    using nec same by (simp_all add: groupFor_def groupKey_def zi zj)
  moreover have "count ?g = int (occurrences segments n cks i)"
    "count ?h = int (occurrences segments n cks j)"
    using occ [OF ij(1) v(1)] occ [OF ij(2) v(2)] by (simp_all add: groupFor_def)
  ultimately show ?thesis
    by blast
qed

lemma necFields_partial:
  assumes "24 \<le> bitCount" and "bitCount < 32"
  shows "necFields rawBits bitCount =
           \<lparr>base = \<lparr>brand = NEC,
                    command = uint (drop_bit 16 rawBits AND 0xFF),
                    address =
                      (if (uint (rawBits AND 0xFF) + uint (drop_bit 8 rawBits AND 0xFF)) mod 256 = 0xFF
                       then uint (rawBits AND 0xFF)
                       else push_bit 8 (uint (drop_bit 8 rawBits AND 0xFF)) OR uint (rawBits AND 0xFF))\<rparr>,
            checksumValid = False\<rparr>"
proof -
  have nn: "uint w \<noteq> -1" for w :: "32 word"
    using uint_ge_0 [of w] by linarith
  from assms show ?thesis
    by (simp add: necFields_def Let_def nn)
qed

lemma partial_matches_unchecked:
  assumes "brand seg = NEC"
  shows "segmentMatches seg False g \<longleftrightarrow> data g = seg \<and> \<not> checksumValidForNEC g"
  using assms by (cases seg; cases "data g") (auto simp add: segmentMatches_def)

text \<open>
  C2. For every non-empty list of at most 10 decoded segments (the capacity of
  \<open>m_decodedSegments\<close>), each with a known brand and a command, the result of the vote is
  the value of a segment \<open>w\<close> whose group occurs at least as often as the group of every
  other segment and strictly more often than the group of every earlier segment: the
  group with the highest count wins, and among groups with the same highest count the
  one encountered first. In particular segments A, A, B yield A.
\<close>

theorem vote_selects_first_majority:
  "(0 < n \<and> n \<le> 10 \<and> n \<le> length segments \<and> n \<le> length segmentChecksums \<and>
    (\<forall>i<n. brand (segments ! i) \<noteq> UNKNOWN \<and> command (segments ! i) \<noteq> -1) \<longrightarrow>
      (\<exists>w<n. determineWinner segments n segmentChecksums = segments ! w \<and>
         (\<forall>j<n. occurrences segments n segmentChecksums j \<le> occurrences segments n segmentChecksums w) \<and>
         (\<forall>j<w. occurrences segments n segmentChecksums j < occurrences segments n segmentChecksums w))) \<and>
   (brand A \<noteq> UNKNOWN \<and> command A \<noteq> -1 \<longrightarrow> determineWinner [A, A, B] 3 [c1, c2, c3] = A)"
proof (intro conjI impI)
  assume a: "0 < n \<and> n \<le> 10 \<and> n \<le> length segments \<and> n \<le> length segmentChecksums \<and>
    (\<forall>i<n. brand (segments ! i) \<noteq> UNKNOWN \<and> command (segments ! i) \<noteq> -1)"
  then have "0 < n" "n \<le> IR_LIB_MAX_DECODED_SEGMENTS" "\<forall>i<n. validSegment (segments ! i)"
    by (simp_all add: IR_LIB_MAX_DECODED_SEGMENTS_def validSegment_def)
  then show "\<exists>w<n. determineWinner segments n segmentChecksums = segments ! w \<and>
         (\<forall>j<n. occurrences segments n segmentChecksums j \<le> occurrences segments n segmentChecksums w) \<and>
         (\<forall>j<w. occurrences segments n segmentChecksums j < occurrences segments n segmentChecksums w)"
    by (rule determineWinner_first_majority)
next
  assume "brand A \<noteq> UNKNOWN \<and> command A \<noteq> -1"
  then have "validSegment A"
    by (simp add: validSegment_def)
  then show "determineWinner [A, A, B] 3 [c1, c2, c3] = A"
    by (rule determineWinner_AAB)
qed

theorem vote_selects_first_majority_witness:
  "(0::nat) < 4 \<and> (4::nat) \<le> 10 \<and> 4 \<le> length tiedSegments \<and>
   4 \<le> length [False, False, False, False] \<and>
   length tiedSegments = 4 \<and>
   list_all (\<lambda>d. brand d \<noteq> UNKNOWN \<and> command d \<noteq> -1) tiedSegments \<and>
   (\<exists>w<4. determineWinner tiedSegments 4 [False, False, False, False] = tiedSegments ! w \<and>
      (\<forall>j<4. occurrences tiedSegments 4 [False, False, False, False] j
                \<le> occurrences tiedSegments 4 [False, False, False, False] w) \<and>
      (\<forall>j<w. occurrences tiedSegments 4 [False, False, False, False] j
                < occurrences tiedSegments 4 [False, False, False, False] w)) \<and>
   determineWinner tiedSegments 4 [False, False, False, False] =
     \<lparr>brand = SONY, command = 21, address = 1\<rparr> \<and>
   occurrences tiedSegments 4 [False, False, False, False] 0 = 2 \<and>
   occurrences tiedSegments 4 [False, False, False, False] 1 = 2 \<and>
   brand \<lparr>brand = NEC, command = 12, address = 0\<rparr> \<noteq> UNKNOWN \<and>
   command \<lparr>brand = NEC, command = 12, address = 0\<rparr> \<noteq> -1 \<and>
   determineWinner [\<lparr>brand = NEC, command = 12, address = 0\<rparr>, \<lparr>brand = NEC, command = 12, address = 0\<rparr>,
                    \<lparr>brand = NEC, command = 13, address = 0\<rparr>] 3 [True, True, True] =
     \<lparr>brand = NEC, command = 12, address = 0\<rparr>"
proof -
  note v = vote_selects_first_majority [of 4 tiedSegments "[False, False, False, False]"
      "\<lparr>brand = NEC, command = 12, address = 0\<rparr>" "\<lparr>brand = NEC, command = 13, address = 0\<rparr>"
      True True True]
  have l: "4 \<le> length tiedSegments"
    by (simp add: tiedSegments_def)
  have n: "length tiedSegments = 4"
    by (simp add: tiedSegments_def)
  have a: "list_all (\<lambda>d. brand d \<noteq> UNKNOWN \<and> command d \<noteq> -1) tiedSegments"
    by (simp add: tiedSegments_def)
  then have h: "\<forall>i<4. brand (tiedSegments ! i) \<noteq> UNKNOWN \<and> command (tiedSegments ! i) \<noteq> -1"
    unfolding list_all_length n .
  from v l h
  have e: "\<exists>w<4. determineWinner tiedSegments 4 [False, False, False, False] = tiedSegments ! w \<and>
      (\<forall>j<4. occurrences tiedSegments 4 [False, False, False, False] j
                \<le> occurrences tiedSegments 4 [False, False, False, False] w) \<and>
      (\<forall>j<w. occurrences tiedSegments 4 [False, False, False, False] j
                < occurrences tiedSegments 4 [False, False, False, False] w)"
    by simp
  have d: "determineWinner tiedSegments 4 [False, False, False, False] =
      \<lparr>brand = SONY, command = 21, address = 1\<rparr>"
    and o0: "occurrences tiedSegments 4 [False, False, False, False] 0 = 2"
    and o1: "occurrences tiedSegments 4 [False, False, False, False] 1 = 2"
    by code_simp+
  from v have g: "determineWinner [\<lparr>brand = NEC, command = 12, address = 0\<rparr>,
      \<lparr>brand = NEC, command = 12, address = 0\<rparr>, \<lparr>brand = NEC, command = 13, address = 0\<rparr>] 3
      [True, True, True] = \<lparr>brand = NEC, command = 12, address = 0\<rparr>"
    by simp
  from l n a e d o0 o1 g show ?thesis
    by simp
qed

text \<open>
  C4. Among at most 10 segments, two NEC segments with the same brand, command and
  address (and a command) but opposite checksum flags are counted in two distinct groups,
  each carrying its own flag and counting exactly the segments of its own kind; two such
  segments alone make two groups of one. For the other brands the grouping does not
  depend on the checksum flags at all, and two equal segments make one group of two
  whatever their flags.
\<close>

theorem checksum_separates_nec_groups:
  "(n \<le> 10 \<and> n \<le> length segments \<and> n \<le> length segmentChecksums \<and> i < n \<and> j < n \<and>
    brand (segments ! i) = NEC \<and> command (segments ! i) \<noteq> -1 \<and>
    segments ! j = segments ! i \<and> segmentChecksums ! i \<noteq> segmentChecksums ! j \<longrightarrow>
      (\<exists>g h. g \<in> set (countSegments segments n segmentChecksums) \<and>
             h \<in> set (countSegments segments n segmentChecksums) \<and> g \<noteq> h \<and>
             data g = segments ! i \<and> data h = segments ! i \<and>
             checksumValidForNEC g = segmentChecksums ! i \<and>
             checksumValidForNEC h = segmentChecksums ! j \<and>
             count g = int (occurrences segments n segmentChecksums i) \<and>
             count h = int (occurrences segments n segmentChecksums j))) \<and>
   (brand a = NEC \<and> command a \<noteq> -1 \<and> c1 \<noteq> c2 \<longrightarrow>
      countSegments [a, a] 2 [c1, c2] =
        [\<lparr>data = a, count = 1, checksumValidForNEC = c1\<rparr>,
         \<lparr>data = a, count = 1, checksumValidForNEC = c2\<rparr>]) \<and>
   ((\<forall>k<m. brand (others ! k) \<noteq> NEC) \<longrightarrow>
      countSegments others m flags = countSegments others m flags') \<and>
   (brand b \<noteq> NEC \<and> brand b \<noteq> UNKNOWN \<and> command b \<noteq> -1 \<longrightarrow>
      countSegments [b, b] 2 [d1, d2] = [\<lparr>data = b, count = 2, checksumValidForNEC = False\<rparr>])"
proof (intro conjI impI)
  assume "n \<le> 10 \<and> n \<le> length segments \<and> n \<le> length segmentChecksums \<and> i < n \<and> j < n \<and>
    brand (segments ! i) = NEC \<and> command (segments ! i) \<noteq> -1 \<and>
    segments ! j = segments ! i \<and> segmentChecksums ! i \<noteq> segmentChecksums ! j"
  then have "n \<le> IR_LIB_MAX_DECODED_SEGMENTS" "i < n" "j < n" "brand (segments ! i) = NEC"
    "command (segments ! i) \<noteq> -1" "segments ! j = segments ! i"
    "segmentChecksums ! i \<noteq> segmentChecksums ! j"
    by (simp_all add: IR_LIB_MAX_DECODED_SEGMENTS_def)
  then show "\<exists>g h. g \<in> set (countSegments segments n segmentChecksums) \<and>
             h \<in> set (countSegments segments n segmentChecksums) \<and> g \<noteq> h \<and>
             data g = segments ! i \<and> data h = segments ! i \<and>
             checksumValidForNEC g = segmentChecksums ! i \<and>
             checksumValidForNEC h = segmentChecksums ! j \<and>
             count g = int (occurrences segments n segmentChecksums i) \<and>
             count h = int (occurrences segments n segmentChecksums j)"
    by (rule nec_groups_kept_apart)
next
  assume "brand a = NEC \<and> command a \<noteq> -1 \<and> c1 \<noteq> c2"
  then show "countSegments [a, a] 2 [c1, c2] =
        [\<lparr>data = a, count = 1, checksumValidForNEC = c1\<rparr>,
         \<lparr>data = a, count = 1, checksumValidForNEC = c2\<rparr>]"
    using countSegments_pair [of a c1 c2] by (simp add: validSegment_def)
next
  assume "\<forall>k<m. brand (others ! k) \<noteq> NEC"
  then show "countSegments others m flags = countSegments others m flags'"
    by (rule countSegments_ignore_checksum)
next
  assume "brand b \<noteq> NEC \<and> brand b \<noteq> UNKNOWN \<and> command b \<noteq> -1"
  then show "countSegments [b, b] 2 [d1, d2] = [\<lparr>data = b, count = 2, checksumValidForNEC = False\<rparr>]"
    using countSegments_pair [of b d1 d2] by (simp add: validSegment_def)
qed

theorem checksum_separates_nec_groups_witness:
  "(3::nat) \<le> 10 \<and> 3 \<le> length necSegments \<and> 3 \<le> length [True, False, True] \<and>
   (0::nat) < 3 \<and> (1::nat) < 3 \<and>
   brand (necSegments ! 0) = NEC \<and> command (necSegments ! 0) \<noteq> -1 \<and>
   necSegments ! 1 = necSegments ! 0 \<and> [True, False, True] ! 0 \<noteq> [True, False, True] ! 1 \<and>
   countSegments necSegments 3 [True, False, True] =
     [\<lparr>data = \<lparr>brand = NEC, command = 12, address = 0\<rparr>, count = 2, checksumValidForNEC = True\<rparr>,
      \<lparr>data = \<lparr>brand = NEC, command = 12, address = 0\<rparr>, count = 1, checksumValidForNEC = False\<rparr>] \<and>
   (\<exists>g h. g \<in> set (countSegments necSegments 3 [True, False, True]) \<and>
          h \<in> set (countSegments necSegments 3 [True, False, True]) \<and> g \<noteq> h \<and>
          data g = necSegments ! 0 \<and> data h = necSegments ! 0 \<and>
          checksumValidForNEC g = [True, False, True] ! 0 \<and>
          checksumValidForNEC h = [True, False, True] ! 1 \<and>
          count g = int (occurrences necSegments 3 [True, False, True] 0) \<and>
          count h = int (occurrences necSegments 3 [True, False, True] 1)) \<and>
   countSegments [\<lparr>brand = NEC, command = 12, address = 0\<rparr>, \<lparr>brand = NEC, command = 12, address = 0\<rparr>] 2
       [True, False] =
     [\<lparr>data = \<lparr>brand = NEC, command = 12, address = 0\<rparr>, count = 1, checksumValidForNEC = True\<rparr>,
      \<lparr>data = \<lparr>brand = NEC, command = 12, address = 0\<rparr>, count = 1, checksumValidForNEC = False\<rparr>] \<and>
   length tiedSegments = 4 \<and> list_all (\<lambda>d. brand d \<noteq> NEC) tiedSegments \<and>
   countSegments tiedSegments 4 [True, False, True, False] =
     countSegments tiedSegments 4 [False, False, False, False] \<and>
   countSegments [\<lparr>brand = JVC, command = 3, address = 5\<rparr>, \<lparr>brand = JVC, command = 3, address = 5\<rparr>] 2
       [True, False] =
     [\<lparr>data = \<lparr>brand = JVC, command = 3, address = 5\<rparr>, count = 2, checksumValidForNEC = False\<rparr>]"
proof -
  note t = checksum_separates_nec_groups [of 3 necSegments "[True, False, True]" 0 1
      "\<lparr>brand = NEC, command = 12, address = 0\<rparr>" True False
      4 tiedSegments "[True, False, True, False]" "[False, False, False, False]"
      "\<lparr>brand = JVC, command = 3, address = 5\<rparr>" True False]
  have p: "3 \<le> length necSegments" "brand (necSegments ! 0) = NEC" "command (necSegments ! 0) \<noteq> -1"
    "necSegments ! 1 = necSegments ! 0"
    by (simp_all add: necSegments_def)
  have c: "countSegments necSegments 3 [True, False, True] =
     [\<lparr>data = \<lparr>brand = NEC, command = 12, address = 0\<rparr>, count = 2, checksumValidForNEC = True\<rparr>,
      \<lparr>data = \<lparr>brand = NEC, command = 12, address = 0\<rparr>, count = 1, checksumValidForNEC = False\<rparr>]"
    by code_simp
  from t p
  have e: "\<exists>g h. g \<in> set (countSegments necSegments 3 [True, False, True]) \<and>
          h \<in> set (countSegments necSegments 3 [True, False, True]) \<and> g \<noteq> h \<and>
          data g = necSegments ! 0 \<and> data h = necSegments ! 0 \<and>
          checksumValidForNEC g = [True, False, True] ! 0 \<and>
          checksumValidForNEC h = [True, False, True] ! 1 \<and>
          count g = int (occurrences necSegments 3 [True, False, True] 0) \<and>
          count h = int (occurrences necSegments 3 [True, False, True] 1)"
    by simp
  from t have q: "countSegments [\<lparr>brand = NEC, command = 12, address = 0\<rparr>,
        \<lparr>brand = NEC, command = 12, address = 0\<rparr>] 2 [True, False] =
     [\<lparr>data = \<lparr>brand = NEC, command = 12, address = 0\<rparr>, count = 1, checksumValidForNEC = True\<rparr>,
      \<lparr>data = \<lparr>brand = NEC, command = 12, address = 0\<rparr>, count = 1, checksumValidForNEC = False\<rparr>]"
    by simp
  have n: "length tiedSegments = 4"
    by (simp add: tiedSegments_def)
  have a: "list_all (\<lambda>d. brand d \<noteq> NEC) tiedSegments"
    by (simp add: tiedSegments_def)
  then have h: "\<forall>k<4. brand (tiedSegments ! k) \<noteq> NEC"
    unfolding list_all_length n .
  with t have o: "countSegments tiedSegments 4 [True, False, True, False] =
     countSegments tiedSegments 4 [False, False, False, False]"
    by blast
  from t have j: "countSegments [\<lparr>brand = JVC, command = 3, address = 5\<rparr>,
        \<lparr>brand = JVC, command = 3, address = 5\<rparr>] 2 [True, False] =
     [\<lparr>data = \<lparr>brand = JVC, command = 3, address = 5\<rparr>, count = 2, checksumValidForNEC = False\<rparr>]"
    by simp
  from p c e q n a o j show ?thesis
    by simp
qed

text \<open>
  C10. When the bit loop of an NEC segment stops with at least 24 and fewer than 32 bits,
  the decoded frame has the first command byte as command and the address made from the
  two address bytes, and its checksum flag is false. The frame takes part in the vote,
  where it matches exactly the groups of the same value whose flag is false: together
  with a full 32-bit decode of the same value it makes one group of two when the
  checksum of that decode failed, and two groups of one when it held.
\<close>

theorem nec_partial_decode_unchecked:
  "necBits dataPairs = (rawBits, bitCount) \<and> 24 \<le> bitCount \<and> bitCount < 32 \<longrightarrow>
     decodeNECData dataPairs =
       \<lparr>base = \<lparr>brand = NEC,
                command = uint (drop_bit 16 rawBits AND 0xFF),
                address =
                  (if (uint (rawBits AND 0xFF) + uint (drop_bit 8 rawBits AND 0xFF)) mod 256 = 0xFF
                   then uint (rawBits AND 0xFF)
                   else push_bit 8 (uint (drop_bit 8 rawBits AND 0xFF)) OR uint (rawBits AND 0xFF))\<rparr>,
        checksumValid = False\<rparr> \<and>
     brand (base (decodeNECData dataPairs)) \<noteq> UNKNOWN \<and>
     command (base (decodeNECData dataPairs)) \<noteq> -1 \<and>
     (\<forall>g. segmentMatches (base (decodeNECData dataPairs)) (checksumValid (decodeNECData dataPairs)) g
            \<longleftrightarrow> data g = base (decodeNECData dataPairs) \<and> \<not> checksumValidForNEC g) \<and>
     (base (necFields full 32) = base (decodeNECData dataPairs) \<longrightarrow>
        countSegments [base (decodeNECData dataPairs), base (necFields full 32)] 2
            [checksumValid (decodeNECData dataPairs), checksumValid (necFields full 32)] =
          (if checksumValid (necFields full 32)
           then [\<lparr>data = base (decodeNECData dataPairs), count = 1, checksumValidForNEC = False\<rparr>,
                 \<lparr>data = base (decodeNECData dataPairs), count = 1, checksumValidForNEC = True\<rparr>]
           else [\<lparr>data = base (decodeNECData dataPairs), count = 2, checksumValidForNEC = False\<rparr>]))"
proof (intro impI)
  assume a: "necBits dataPairs = (rawBits, bitCount) \<and> 24 \<le> bitCount \<and> bitCount < 32"
  let ?r = "decodeNECData dataPairs"
  from a have r: "?r = necFields rawBits bitCount"
    by (simp add: decodeNECData_def)
  from a have f: "necFields rawBits bitCount =
       \<lparr>base = \<lparr>brand = NEC,
                command = uint (drop_bit 16 rawBits AND 0xFF),
                address =
                  (if (uint (rawBits AND 0xFF) + uint (drop_bit 8 rawBits AND 0xFF)) mod 256 = 0xFF
                   then uint (rawBits AND 0xFF)
                   else push_bit 8 (uint (drop_bit 8 rawBits AND 0xFF)) OR uint (rawBits AND 0xFF))\<rparr>,
        checksumValid = False\<rparr>"
    by (intro necFields_partial) simp_all
  have nn: "uint (drop_bit 16 rawBits AND 0xFF) \<noteq> -1"
    using uint_ge_0 [of "drop_bit 16 rawBits AND 0xFF"] by linarith
  from r f nn have b: "brand (base ?r) = NEC" "command (base ?r) \<noteq> -1" "\<not> checksumValid ?r"
    by simp_all
  then have v: "validSegment (base ?r)"
    by (simp add: validSegment_def)
  have m: "\<forall>g. segmentMatches (base ?r) (checksumValid ?r) g
            \<longleftrightarrow> data g = base ?r \<and> \<not> checksumValidForNEC g"
    using partial_matches_unchecked [OF b(1)] b(3) by simp
  have p: "base (necFields full 32) = base ?r \<longrightarrow>
        countSegments [base ?r, base (necFields full 32)] 2
            [checksumValid ?r, checksumValid (necFields full 32)] =
          (if checksumValid (necFields full 32)
           then [\<lparr>data = base ?r, count = 1, checksumValidForNEC = False\<rparr>,
                 \<lparr>data = base ?r, count = 1, checksumValidForNEC = True\<rparr>]
           else [\<lparr>data = base ?r, count = 2, checksumValidForNEC = False\<rparr>])"
    using countSegments_pair [OF v, of False "checksumValid (necFields full 32)"] b(1,3)
    by auto
  from r f b m p
  show "?r =
       \<lparr>base = \<lparr>brand = NEC,
                command = uint (drop_bit 16 rawBits AND 0xFF),
                address =
                  (if (uint (rawBits AND 0xFF) + uint (drop_bit 8 rawBits AND 0xFF)) mod 256 = 0xFF
                   then uint (rawBits AND 0xFF)
                   else push_bit 8 (uint (drop_bit 8 rawBits AND 0xFF)) OR uint (rawBits AND 0xFF))\<rparr>,
        checksumValid = False\<rparr> \<and>
     brand (base ?r) \<noteq> UNKNOWN \<and>
     command (base ?r) \<noteq> -1 \<and>
     (\<forall>g. segmentMatches (base ?r) (checksumValid ?r) g
            \<longleftrightarrow> data g = base ?r \<and> \<not> checksumValidForNEC g) \<and>
     (base (necFields full 32) = base ?r \<longrightarrow>
        countSegments [base ?r, base (necFields full 32)] 2
            [checksumValid ?r, checksumValid (necFields full 32)] =
          (if checksumValid (necFields full 32)
           then [\<lparr>data = base ?r, count = 1, checksumValidForNEC = False\<rparr>,
                 \<lparr>data = base ?r, count = 1, checksumValidForNEC = True\<rparr>]
           else [\<lparr>data = base ?r, count = 2, checksumValidForNEC = False\<rparr>]))"
    by (intro conjI) simp_all
qed

theorem nec_partial_decode_unchecked_witness:
  "necBits necPartialPairs = (0x0CFF00, 24) \<and> (24::nat) \<le> 24 \<and> (24::nat) < 32 \<and>
   decodeNECData necPartialPairs =
     \<lparr>base = \<lparr>brand = NEC, command = 12, address = 0\<rparr>, checksumValid = False\<rparr> \<and>
   base (necFields 0xF30CFF00 32) = base (decodeNECData necPartialPairs) \<and>
   checksumValid (necFields 0xF30CFF00 32) \<and>
   countSegments [base (decodeNECData necPartialPairs), base (necFields 0xF30CFF00 32)] 2
       [checksumValid (decodeNECData necPartialPairs), checksumValid (necFields 0xF30CFF00 32)] =
     [\<lparr>data = \<lparr>brand = NEC, command = 12, address = 0\<rparr>, count = 1, checksumValidForNEC = False\<rparr>,
      \<lparr>data = \<lparr>brand = NEC, command = 12, address = 0\<rparr>, count = 1, checksumValidForNEC = True\<rparr>] \<and>
   base (necFields 0x000CFF00 32) = base (decodeNECData necPartialPairs) \<and>
   \<not> checksumValid (necFields 0x000CFF00 32) \<and>
   countSegments [base (decodeNECData necPartialPairs), base (necFields 0x000CFF00 32)] 2
       [checksumValid (decodeNECData necPartialPairs), checksumValid (necFields 0x000CFF00 32)] =
     [\<lparr>data = \<lparr>brand = NEC, command = 12, address = 0\<rparr>, count = 2, checksumValidForNEC = False\<rparr>]"
proof -
  note t1 = nec_partial_decode_unchecked [of necPartialPairs "0x0CFF00" 24 "0xF30CFF00"]
  note t2 = nec_partial_decode_unchecked [of necPartialPairs "0x0CFF00" 24 "0x000CFF00"]
  have nb: "necBits necPartialPairs = (0x0CFF00, 24)"
    by code_simp
  have d: "decodeNECData necPartialPairs =
     \<lparr>base = \<lparr>brand = NEC, command = 12, address = 0\<rparr>, checksumValid = False\<rparr>"
    by code_simp
  have f1: "base (necFields 0xF30CFF00 32) = \<lparr>brand = NEC, command = 12, address = 0\<rparr>"
    "checksumValid (necFields 0xF30CFF00 32)"
    by code_simp+
  have f2: "base (necFields 0x000CFF00 32) = \<lparr>brand = NEC, command = 12, address = 0\<rparr>"
    "\<not> checksumValid (necFields 0x000CFF00 32)"
    by code_simp+
  have ar: "(24::nat) \<le> 24 \<and> (24::nat) < 32"
    by simp
  from d f1 f2 have e: "base (necFields 0xF30CFF00 32) = base (decodeNECData necPartialPairs)"
    "base (necFields 0x000CFF00 32) = base (decodeNECData necPartialPairs)"
    by simp_all
  from t1 nb ar e(1)
  have "countSegments [base (decodeNECData necPartialPairs), base (necFields 0xF30CFF00 32)] 2
          [checksumValid (decodeNECData necPartialPairs), checksumValid (necFields 0xF30CFF00 32)] =
        (if checksumValid (necFields 0xF30CFF00 32)
         then [\<lparr>data = base (decodeNECData necPartialPairs), count = 1, checksumValidForNEC = False\<rparr>,
               \<lparr>data = base (decodeNECData necPartialPairs), count = 1, checksumValidForNEC = True\<rparr>]
         else [\<lparr>data = base (decodeNECData necPartialPairs), count = 2, checksumValidForNEC = False\<rparr>])"
    by blast
  with f1(2) have c1: "countSegments [base (decodeNECData necPartialPairs), base (necFields 0xF30CFF00 32)] 2
       [checksumValid (decodeNECData necPartialPairs), checksumValid (necFields 0xF30CFF00 32)] =
     [\<lparr>data = \<lparr>brand = NEC, command = 12, address = 0\<rparr>, count = 1, checksumValidForNEC = False\<rparr>,
      \<lparr>data = \<lparr>brand = NEC, command = 12, address = 0\<rparr>, count = 1, checksumValidForNEC = True\<rparr>]"
    by (simp add: d)
  from t2 nb ar e(2)
  have "countSegments [base (decodeNECData necPartialPairs), base (necFields 0x000CFF00 32)] 2
          [checksumValid (decodeNECData necPartialPairs), checksumValid (necFields 0x000CFF00 32)] =
        (if checksumValid (necFields 0x000CFF00 32)
         then [\<lparr>data = base (decodeNECData necPartialPairs), count = 1, checksumValidForNEC = False\<rparr>,
               \<lparr>data = base (decodeNECData necPartialPairs), count = 1, checksumValidForNEC = True\<rparr>]
         else [\<lparr>data = base (decodeNECData necPartialPairs), count = 2, checksumValidForNEC = False\<rparr>])"
    by blast
  with f2(2) have c2: "countSegments [base (decodeNECData necPartialPairs), base (necFields 0x000CFF00 32)] 2
       [checksumValid (decodeNECData necPartialPairs), checksumValid (necFields 0x000CFF00 32)] =
     [\<lparr>data = \<lparr>brand = NEC, command = 12, address = 0\<rparr>, count = 2, checksumValidForNEC = False\<rparr>]"
    by (simp add: d)
  from nb ar d e f1(2) f2(2) c1 c2 show ?thesis
    by (intro conjI) simp_all
qed

subsection \<open>Absolute tolerance\<close>

text \<open>
  The absolute tolerance check is inclusive at both ends of its window: for a tolerance
  that is not negative it accepts a capture exactly \<open>tolerance\<close> above or below the
  expected duration and rejects one microsecond beyond. The percentage check
  \<open>isWithinPercentageTolerance\<close>, which no other function of the receiver calls,
  multiplies by a \<open>float\<close> and compares in single precision; it is not part of this
  development.
\<close>

lemma isWithinTolerance_boundary:
  assumes "0 \<le> tolerance"
  shows "isWithinTolerance (expected + tolerance) expected tolerance"
    and "\<not> isWithinTolerance (expected + tolerance + 1) expected tolerance"
    and "isWithinTolerance (expected - tolerance) expected tolerance"
    and "\<not> isWithinTolerance (expected - tolerance - 1) expected tolerance"
  using assms by (simp_all add: isWithinTolerance_def)

end
